theory Spec2Isabelle
  imports Complex_Main "HOL-Library.Word"
begin

section \<open>Conventions\<close>

text \<open>
  The two programs of the repository, \<^verbatim>\<open>index.py\<close> (command line) and
  \<^verbatim>\<open>speech_app.py\<close> (menubar daemon), are embedded function by function.
  Sample values, levels and durations are real numbers (the float quotient that gives
  the number of silent blocks is not modelled: its integer result is a parameter), an
  audio block is the list of its samples,
  and everything outside the repository (the audio device, the speech model, the JSON
  library, the file system, the operating system's clipboard) is a parameter or an entry
  of an explicit world state. Exceptions are values of the type \<open>error\<close>.
\<close>

datatype error =
    ValueError          \<comment> \<open>numpy: reduction or concatenation of nothing\<close>
  | KeyError            \<comment> \<open>a dictionary without the key\<close>
  | ModelLoadError      \<comment> \<open>\<^verbatim>\<open>WhisperModel(...)\<close> raised\<close>
  | ModelError          \<comment> \<open>\<^verbatim>\<open>model.transcribe(...)\<close> raised\<close>
  | JSONDecodeError     \<comment> \<open>\<^verbatim>\<open>json.load\<close> raised\<close>

type_synonym frame = "real list"

section \<open>Silence-triggered capture (\<^verbatim>\<open>index.py\<close>, \<^verbatim>\<open>record_until_silence\<close>)\<close>

text \<open>
  The recorder's variables \<^verbatim>\<open>chunks\<close>, \<^verbatim>\<open>silent_chunks\<close> and
  \<^verbatim>\<open>speaking_started\<close>, shared between the audio callback and the polling loop.
\<close>

record session =
  chunks :: "frame list"
  silent_chunks :: int
  speaking_started :: bool

definition session0 :: session where
  "session0 = \<lparr>chunks = [], silent_chunks = 0, speaking_started = False\<rparr>"

text \<open>
  \<^verbatim>\<open>np.abs(indata).mean()\<close>: the mean of nothing is \<^verbatim>\<open>nan\<close>, written \<open>None\<close>;
  every comparison with \<^verbatim>\<open>nan\<close> is false.
\<close>

definition level :: "frame \<Rightarrow> real option" where
  "level indata =
     (if indata = [] then None
      else Some (sum_list (map abs indata) / real (length indata)))"

definition exceeds :: "real option \<Rightarrow> real \<Rightarrow> bool" where
  "exceeds lv silence_threshold =
     (case lv of None \<Rightarrow> False | Some l \<Rightarrow> l > silence_threshold)"

definition callback :: "real \<Rightarrow> frame \<Rightarrow> session \<Rightarrow> session" where
  "callback silence_threshold indata s =
     (let lv = level indata;
          s1 = s\<lparr>chunks := chunks s @ [indata]\<rparr>
      in if exceeds lv silence_threshold
         then s1\<lparr>speaking_started := True, silent_chunks := 0\<rparr>
         else if speaking_started s1
         then s1\<lparr>silent_chunks := silent_chunks s1 + 1\<rparr>
         else s1)"

text \<open>
  One pass of the body of \<^verbatim>\<open>while True\<close> after the sleep: which \<^verbatim>\<open>break\<close>, if
  any, is taken. The silence test comes first, as in the source.
\<close>

datatype ending = ENDED_SILENCE | ENDED_MAXDURATION

definition check :: "real \<Rightarrow> int \<Rightarrow> session \<Rightarrow> ending option" where
  "check max_duration max_silent s =
     (if speaking_started s \<and> silent_chunks s \<ge> max_silent then Some ENDED_SILENCE
      else if real (length (chunks s)) * (1 / 10) \<ge> max_duration then Some ENDED_MAXDURATION
      else None)"

text \<open>
  The callback runs on the audio thread and the loop polls every 100 ms, so what the
  recorder does is fixed by the order in which callbacks and polls happen. That order is
  the input of the model: a list of events. The recorder stops at the first poll whose
  test succeeds; \<open>None\<close> says that it is still recording when the events end.
\<close>

datatype event = Frame frame | Poll

fun listen :: "real \<Rightarrow> real \<Rightarrow> int \<Rightarrow> session \<Rightarrow> event list \<Rightarrow> (ending \<times> session) option" where
  "listen max_duration silence_threshold max_silent s [] = None"
| "listen max_duration silence_threshold max_silent s (Frame indata # es) =
     listen max_duration silence_threshold max_silent (callback silence_threshold indata s) es"
| "listen max_duration silence_threshold max_silent s (Poll # es) =
     (case check max_duration max_silent s of
        Some e \<Rightarrow> Some (e, s)
      | None \<Rightarrow> listen max_duration silence_threshold max_silent s es)"

text \<open>Python's \<^verbatim>\<open>int(x)\<close> on a float: truncation towards zero.\<close>

definition py_int :: "real \<Rightarrow> int" where
  "py_int x = (if x \<ge> 0 then \<lfloor>x\<rfloor> else \<lceil>x\<rceil>)"

definition sample_rate :: nat where
  "sample_rate = 16000"

text \<open>\<^verbatim>\<open>np.concatenate(chunks)\<close> raises \<^verbatim>\<open>ValueError\<close> on the empty list.\<close>

definition np_concatenate :: "frame list \<Rightarrow> error + real list" where
  "np_concatenate cs = (if cs = [] then Inl ValueError else Inr (concat cs))"

text \<open>
  \<^verbatim>\<open>record_until_silence\<close>. The number of silent blocks asked for,
  \<^verbatim>\<open>max_silent = int(silence_duration / 0.1)\<close>, is computed once, in binary floating
  point, before the stream is opened; the quotient is not always the exact one (0.3 / 0.1
  is 2.9999999999999996, so the program asks for 2 blocks, not 3). The model therefore
  takes the integer \<open>max_silent\<close> itself, whatever the program computed, in the place
  of \<^verbatim>\<open>silence_duration\<close>; for the default 1.5 it is 15. The stream delivers blocks
  of \<^verbatim>\<open>int(16000 * 0.1)\<close> = 1600 samples.
\<close>

definition record_until_silence ::
  "real \<Rightarrow> real \<Rightarrow> int \<Rightarrow> event list \<Rightarrow> (error + real list \<times> nat) option" where
  "record_until_silence max_duration silence_threshold max_silent es =
     (case listen max_duration silence_threshold max_silent session0 es of
        None \<Rightarrow> None
      | Some (e, s) \<Rightarrow>
          Some (case np_concatenate (chunks s) of
                  Inl err \<Rightarrow> Inl err
                | Inr audio \<Rightarrow> Inr (audio, sample_rate)))"

text \<open>
  The schedule the specification's frame counts refer to: the loop looks at the
  variables once after every block, so that "stops at frame n" has a meaning.
\<close>

definition lockstep :: "frame list \<Rightarrow> event list" where
  "lockstep fs = concat (map (\<lambda>f. [Frame f, Poll]) fs)"

text \<open>The outcome reduced to the break taken and the number of blocks recorded.\<close>

definition stopped_at :: "(ending \<times> session) option \<Rightarrow> (ending \<times> nat) option" where
  "stopped_at r = (case r of None \<Rightarrow> None | Some (e, s) \<Rightarrow> Some (e, length (chunks s)))"

text \<open>
  The recorder's variables after a sequence of events, whether or not the loop has left.
\<close>

fun variables :: "real \<Rightarrow> session \<Rightarrow> event list \<Rightarrow> session" where
  "variables silence_threshold s [] = s"
| "variables silence_threshold s (Frame indata # es) =
     variables silence_threshold (callback silence_threshold indata s) es"
| "variables silence_threshold s (Poll # es) = variables silence_threshold s es"

text \<open>The blocks delivered by a sequence of events, in order.\<close>

fun frames_of :: "event list \<Rightarrow> frame list" where
  "frames_of [] = []"
| "frames_of (Frame indata # es) = indata # frames_of es"
| "frames_of (Poll # es) = frames_of es"

section \<open>The world outside the program\<close>

text \<open>
  A model handle is the object built by one call of \<^verbatim>\<open>WhisperModel(...)\<close>; it is named
  by the number of that call, so that two constructions never give the same handle.
  The directory of temporary files is an association list from path to content, and
  every call that leaves the program (the model run, a notification, the clipboard, the
  paste keystroke) is recorded in \<open>effects\<close>.
\<close>

type_synonym handle = nat
type_synonym path = nat

datatype content = Empty | Wav nat "16 word list"

datatype message = Text string | Str error

datatype effect =
    ModelInvoked handle path             \<comment> \<open>\<^verbatim>\<open>model.transcribe(temp_path, ...)\<close>\<close>
  | Notification string string message   \<comment> \<open>\<^verbatim>\<open>rumps.notification(title, subtitle, message)\<close>\<close>
  | Pbcopy string                        \<comment> \<open>the text piped into \<^verbatim>\<open>pbcopy\<close>\<close>
  | PasteKeystroke                       \<comment> \<open>\<^verbatim>\<open>osascript\<close>: Cmd+V\<close>

record world =
  model :: "handle option"               \<comment> \<open>the global \<^verbatim>\<open>_model\<close>\<close>
  constructions :: nat                   \<comment> \<open>calls of \<^verbatim>\<open>WhisperModel(...)\<close> so far\<close>
  models_dir :: bool                     \<comment> \<open>\<^verbatim>\<open>os.makedirs(..., exist_ok=True)\<close> has run\<close>
  files :: "(path \<times> content) list"
  effects :: "effect list"

text \<open>
  What the library does when called: whether the \<open>n\<close>-th construction raises, and what
  a model returns (the texts of the segments) or raises on a WAV file.
\<close>

record env =
  load_model :: "nat \<Rightarrow> error option"
  run_model :: "handle \<Rightarrow> content \<Rightarrow> error + string list"

definition exists_file :: "world \<Rightarrow> path \<Rightarrow> bool" where
  "exists_file w p = (p \<in> set (map fst (files w)))"

text \<open>\<^verbatim>\<open>tempfile.NamedTemporaryFile(delete=False)\<close> takes a name that is not in use.\<close>

definition fresh :: "(path \<times> content) list \<Rightarrow> path" where
  "fresh fs = Suc (fold max (map fst fs) 0)"

definition write_file :: "path \<Rightarrow> content \<Rightarrow> world \<Rightarrow> world" where
  "write_file p c w = w\<lparr>files := (p, c) # filter (\<lambda>(q, d). q \<noteq> p) (files w)\<rparr>"

definition unlink :: "path \<Rightarrow> world \<Rightarrow> world" where
  "unlink p w = w\<lparr>files := filter (\<lambda>(q, d). q \<noteq> p) (files w)\<rparr>"

section \<open>ModelProvider, one caller (\<^verbatim>\<open>get_model\<close>)\<close>

text \<open>
  \<^verbatim>\<open>get_model\<close> is the same function in both programs. With a single caller the lock
  is always free and the two tests of \<^verbatim>\<open>_model is None\<close> agree; the interleaving of
  several callers is the subject of a later section.
\<close>

definition get_model :: "env \<Rightarrow> world \<Rightarrow> (error + handle) \<times> world" where
  "get_model en w =
     (case model w of
        Some h \<Rightarrow> (Inr h, w)
      | None \<Rightarrow>
          (let w1 = w\<lparr>models_dir := True\<rparr>;
               w2 = w1\<lparr>constructions := constructions w1 + 1\<rparr>
           in case load_model en (constructions w1) of
                Some e \<Rightarrow> (Inl e, w2)
              | None \<Rightarrow> (Inr (constructions w1), w2\<lparr>model := Some (constructions w1)\<rparr>)))"

section \<open>Transcriber (\<^verbatim>\<open>transcribe\<close> in \<^verbatim>\<open>index.py\<close>, \<^verbatim>\<open>transcribe_audio\<close> in \<^verbatim>\<open>speech_app.py\<close>)\<close>

text \<open>\<^verbatim>\<open>np.max\<close> raises \<^verbatim>\<open>ValueError\<close> on an array of size zero.\<close>

fun np_max :: "real list \<Rightarrow> error + real" where
  "np_max [] = Inl ValueError"
| "np_max (x # xs) = Inr (fold max xs x)"

text \<open>
  The normalisation step, \<^verbatim>\<open>if np.max(np.abs(a)) > 0: a = a / np.max(np.abs(a))\<close>.
  The result says which branch ran: \<open>Divided m\<close> when every sample was divided by
  \<open>m\<close>, \<open>Skipped\<close> when no division took place.
\<close>

datatype norm = Skipped | Divided real

definition peak_normalize :: "real list \<Rightarrow> error + norm \<times> real list" where
  "peak_normalize audio_data =
     (case np_max (map abs audio_data) of
        Inl e \<Rightarrow> Inl e
      | Inr m \<Rightarrow>
          if m > 0 then Inr (Divided m, map (\<lambda>x. x / m) audio_data)
          else Inr (Skipped, audio_data))"

text \<open>\<^verbatim>\<open>np.int16(a * 32767)\<close>: truncation towards zero into sixteen bits.\<close>

definition np_int16 :: "real \<Rightarrow> 16 word" where
  "np_int16 x = word_of_int (py_int x)"

definition quantize :: "real list \<Rightarrow> 16 word list" where
  "quantize audio_data = map (\<lambda>x. np_int16 (x * 32767)) audio_data"

text \<open>\<^verbatim>\<open>" ".join(...).strip()\<close>, on ASCII text.\<close>

definition is_space :: "char \<Rightarrow> bool" where
  "is_space c = (c \<in> set [CHR '' '', CHR 0x09, CHR 0x0A, CHR 0x0B, CHR 0x0C, CHR 0x0D,
                            CHR 0x1C, CHR 0x1D, CHR 0x1E, CHR 0x1F])"

definition strip :: "string \<Rightarrow> string" where
  "strip s = rev (dropWhile is_space (rev (dropWhile is_space s)))"

fun join :: "string \<Rightarrow> string list \<Rightarrow> string" where
  "join sep [] = []"
| "join sep [x] = x"
| "join sep (x # y # ys) = x @ sep @ join sep (y # ys)"

text \<open>
  \<^verbatim>\<open>transcribe\<close> of \<^verbatim>\<open>index.py\<close>. The temporary file is created first; the
  normalisation and the write come before \<^verbatim>\<open>try\<close>, so an error there leaves with the
  file in place; whatever happens inside \<^verbatim>\<open>try\<close>, \<^verbatim>\<open>finally\<close> unlinks the file.
\<close>

definition transcribe :: "env \<Rightarrow> real list \<Rightarrow> nat \<Rightarrow> world \<Rightarrow> (error + string) \<times> world" where
  "transcribe en audio_data sr w =
     (let temp_path = fresh (files w);
          w1 = write_file temp_path Empty w
      in case peak_normalize audio_data of
           Inl e \<Rightarrow> (Inl e, w1)
         | Inr (n, a) \<Rightarrow>
             (let wav = Wav sr (quantize a);
                  w2 = write_file temp_path wav w1;
                  (r, w5) =
                    (case get_model en w2 of
                       (Inl e, w3) \<Rightarrow> (Inl e, w3)
                     | (Inr m, w3) \<Rightarrow>
                         (let w4 = w3\<lparr>effects := effects w3 @ [ModelInvoked m temp_path]\<rparr>
                          in case run_model en m wav of
                               Inl e \<Rightarrow> (Inl e, w4)
                             | Inr segments \<Rightarrow> (Inr (strip (join '' '' segments)), w4)))
              in (r, unlink temp_path w5)))"

text \<open>
  \<^verbatim>\<open>transcribe_audio\<close> of \<^verbatim>\<open>speech_app.py\<close>: the guard on the empty buffer, then
  the same statements as \<^verbatim>\<open>transcribe\<close>.
\<close>

definition transcribe_audio :: "env \<Rightarrow> real list \<Rightarrow> nat \<Rightarrow> world \<Rightarrow> (error + string) \<times> world" where
  "transcribe_audio en audio_data sr w =
     (if length audio_data = 0 then (Inr '''', w) else transcribe en audio_data sr w)"

section \<open>Delivery and the daemon's worker (\<^verbatim>\<open>speech_app.py\<close>)\<close>

definition paste_text :: "string \<Rightarrow> world \<Rightarrow> world" where
  "paste_text text w =
     (if text = [] then w else w\<lparr>effects := effects w @ [Pbcopy text, PasteKeystroke]\<rparr>)"

text \<open>
  The menubar title is one of three icons (microphone, red circle, hourglass) and the
  status line one of five texts; \<open>Ready h\<close> is the line that names the hotkey \<open>h\<close>.
\<close>

datatype icon = Mic | RedDot | Hourglass

datatype status = Initial | Ready string | LoadingModel | Recording | Transcribing

type_synonym config = "(string \<times> string) list"

record app =
  title :: icon
  status :: status
  config :: config
  is_recording :: bool
  audio_chunks :: "frame list"

text \<open>
  The two assignments that reset the indicator. The second reads
  \<^verbatim>\<open>self.config['hotkey']\<close> and raises \<^verbatim>\<open>KeyError\<close> without that key, after the first
  has been done.
\<close>

definition set_ready :: "app \<Rightarrow> error option \<times> app" where
  "set_ready a =
     (let a1 = a\<lparr>title := Mic\<rparr>
      in case map_of (config a1) ''hotkey'' of
           None \<Rightarrow> (Some KeyError, a1)
         | Some h \<Rightarrow> (None, a1\<lparr>status := Ready h\<rparr>))"

text \<open>
  \<^verbatim>\<open>_process_audio\<close>: the \<^verbatim>\<open>try\<close> block with its early return, the handler that
  turns any exception into a notification, and the \<^verbatim>\<open>finally\<close> block. The error
  returned is the one that leaves the function.
\<close>

definition process_audio :: "env \<Rightarrow> app \<Rightarrow> real list \<Rightarrow> world \<Rightarrow> error option \<times> app \<times> world" where
  "process_audio en a audio_data w =
     (let (raised, a1, w1) =
            (if real (length audio_data) < real sample_rate * (3 / 10)
             then (case set_ready a of (e, a') \<Rightarrow> (e, a', w))
             else (case transcribe_audio en audio_data sample_rate w of
                     (Inl e, w') \<Rightarrow> (Some e, a, w')
                   | (Inr text, w') \<Rightarrow>
                       if text \<noteq> []
                       then (None, a,
                             (paste_text text w')\<lparr>effects := effects (paste_text text w') @
                               [Notification ''Speech to Text'' ''''
                                  (Text (if length text > 50 then take 50 text @ ''...'' else text))]\<rparr>)
                       else (None, a, w')));
          w2 = (case raised of
                  Some e \<Rightarrow> w1\<lparr>effects := effects w1 @ [Notification ''Hata'' '''' (Str e)]\<rparr>
                | None \<Rightarrow> w1);
          (e2, a2) = set_ready a1
      in (e2, a2, w2))"

text \<open>
  What \<^verbatim>\<open>__init__\<close> does with the configuration it was given:
  \<^verbatim>\<open>start_hotkey_listener\<close> reads \<^verbatim>\<open>self.config['hotkey']\<close>, so no application object
  exists without that key.
\<close>

definition app_init :: "config \<Rightarrow> error + app" where
  "app_init cfg =
     (case map_of cfg ''hotkey'' of
        None \<Rightarrow> Inl KeyError
      | Some h \<Rightarrow>
          Inr \<lparr>title = Mic, status = Initial, config = cfg, is_recording = False,
               audio_chunks = []\<rparr>)"

text \<open>A world with nothing in it, and a library whose model raises on every run.\<close>

definition world0 :: world where
  "world0 = \<lparr>model = None, constructions = 0, models_dir = False, files = [], effects = []\<rparr>"

definition failing_model :: env where
  "failing_model = \<lparr>load_model = (\<lambda>n. None), run_model = (\<lambda>h c. Inl ModelError)\<rparr>"

section \<open>Configuration (\<^verbatim>\<open>load_config\<close>, \<^verbatim>\<open>save_config\<close>)\<close>

definition DEFAULT_HOTKEY :: string where
  "DEFAULT_HOTKEY = ''ctrl''"

text \<open>The hotkeys that \<^verbatim>\<open>show_hotkey_menu\<close> accepts.\<close>

definition keys :: "string list" where
  "keys = [''ctrl'', ''alt'', ''shift'', ''cmd'', ''f1'', ''f2'', ''f3'', ''f4'', ''f5'', ''f6'']"

text \<open>
  The file at \<^verbatim>\<open>CONFIG_PATH\<close> is its text, or \<open>None\<close> when it does not exist.
  \<^verbatim>\<open>json.load\<close> and \<^verbatim>\<open>json.dump\<close> belong to Python's library and are parameters.
\<close>

definition load_config :: "(string \<Rightarrow> error + config) \<Rightarrow> string option \<Rightarrow> error + config" where
  "load_config json_load file =
     (case file of
        Some text \<Rightarrow> json_load text
      | None \<Rightarrow> Inr [(''hotkey'', DEFAULT_HOTKEY)])"

definition save_config :: "(config \<Rightarrow> string) \<Rightarrow> config \<Rightarrow> string option \<Rightarrow> string option" where
  "save_config json_dump cfg file = Some (json_dump cfg)"

text \<open>
  An instance of the two parameters: the layout \<^verbatim>\<open>json.dump\<close> gives an object of
  strings, \<^verbatim>\<open>{"k": "v", ...}\<close>, and a reader of that layout. Quote and backslash are
  escaped with a backslash.
\<close>

definition dquote :: char where
  "dquote = CHR 0x22"

definition backslash :: char where
  "backslash = CHR 0x5C"

fun json_escape :: "string \<Rightarrow> string" where
  "json_escape [] = []"
| "json_escape (c # cs) =
     (if c = dquote \<or> c = backslash then backslash # c # json_escape cs
      else c # json_escape cs)"

definition json_quote :: "string \<Rightarrow> string" where
  "json_quote s = dquote # json_escape s @ [dquote]"

definition json_dumps :: "config \<Rightarrow> string" where
  "json_dumps cfg =
     ''{'' @ join '', '' (map (\<lambda>(k, v). json_quote k @ '': '' @ json_quote v) cfg) @ ''}''"

text \<open>The characters after an opening quote, up to the closing one, and the rest.\<close>

fun read_string :: "string \<Rightarrow> (string \<times> string) option" where
  "read_string [] = None"
| "read_string (c # cs) =
     (if c = dquote then Some ([], cs)
      else if c = backslash then
        (case cs of
           [] \<Rightarrow> None
         | d # ds \<Rightarrow>
             if d = dquote \<or> d = backslash
             then (case read_string ds of None \<Rightarrow> None | Some (s, r) \<Rightarrow> Some (d # s, r))
             else None)
      else (case read_string cs of None \<Rightarrow> None | Some (s, r) \<Rightarrow> Some (c # s, r)))"

definition json_ws :: "char \<Rightarrow> bool" where
  "json_ws c = (c \<in> set [CHR '' '', CHR 0x09, CHR 0x0A, CHR 0x0D])"

definition read_quoted :: "string \<Rightarrow> (string \<times> string) option" where
  "read_quoted s =
     (case dropWhile json_ws s of
        [] \<Rightarrow> None
      | c # cs \<Rightarrow> if c = dquote then read_string cs else None)"

text \<open>
  The members of an object after its opening brace. The first argument bounds the number
  of members still to be read; the text's length is enough.
\<close>

fun read_members :: "nat \<Rightarrow> string \<Rightarrow> config option" where
  "read_members 0 s = None"
| "read_members (Suc n) s =
     (case read_quoted s of
        None \<Rightarrow> None
      | Some (k, r1) \<Rightarrow>
          (case dropWhile json_ws r1 of
             [] \<Rightarrow> None
           | c # r2 \<Rightarrow>
               if c \<noteq> CHR '':'' then None
               else (case read_quoted r2 of
                       None \<Rightarrow> None
                     | Some (v, r3) \<Rightarrow>
                         (case dropWhile json_ws r3 of
                            [] \<Rightarrow> None
                          | d # r4 \<Rightarrow>
                              if d = CHR ''}'' then
                                (if dropWhile json_ws r4 = [] then Some [(k, v)] else None)
                              else if d = CHR '','' then
                                (case read_members n r4 of
                                   None \<Rightarrow> None
                                 | Some kvs \<Rightarrow> Some ((k, v) # kvs))
                              else None))))"

definition json_loads :: "string \<Rightarrow> error + config" where
  "json_loads text =
     (case dropWhile json_ws text of
        [] \<Rightarrow> Inl JSONDecodeError
      | c # cs \<Rightarrow>
          if c \<noteq> CHR ''{'' then Inl JSONDecodeError
          else (case dropWhile json_ws cs of
                  [] \<Rightarrow> Inl JSONDecodeError
                | d # ds \<Rightarrow>
                    if d = CHR ''}'' \<and> dropWhile json_ws ds = [] then Inr []
                    else (case read_members (length cs) cs of
                            None \<Rightarrow> Inl JSONDecodeError
                          | Some kvs \<Rightarrow> Inr kvs)))"

section \<open>ModelProvider, several callers\<close>

text \<open>
  Each thread runs \<^verbatim>\<open>get_model()\<close> once. Its program counter names the statement it
  is about to execute; a step is one access to the shared variables \<^verbatim>\<open>_model\<close> and
  \<^verbatim>\<open>_model_lock\<close>, which the interpreter performs one at a time:
  \<^item> \<open>Outer\<close>: the first \<^verbatim>\<open>if _model is None\<close>;
  \<^item> \<open>Acquire\<close>: entering \<^verbatim>\<open>with _model_lock\<close>, which waits while the lock is held;
  \<^item> \<open>Inner\<close>: the second \<^verbatim>\<open>if _model is None\<close>, inside the lock;
  \<^item> \<open>Construct\<close>: the call \<^verbatim>\<open>WhisperModel(...)\<close>, which returns a new handle or raises;
  \<^item> \<open>Assign h\<close>: the store \<^verbatim>\<open>_model = h\<close>;
  \<^item> \<open>Release\<close> and \<open>ReleaseRaise\<close>: leaving \<^verbatim>\<open>with\<close>, normally or with the exception;
  \<^item> \<open>Return\<close>: \<^verbatim>\<open>return _model\<close>;
  \<^item> \<open>Done r\<close>: the caller has received \<open>r\<close>; \<open>Raised\<close>: the caller has received the
    exception.
\<close>

type_synonym tid = nat

datatype pc =
  Outer | Acquire | Inner | Construct | Assign handle | Release | ReleaseRaise | Return
  | Done "handle option" | Raised

record shared =
  g_model :: "handle option"      \<comment> \<open>\<^verbatim>\<open>_model\<close>\<close>
  lock :: "tid option"            \<comment> \<open>the holder of \<^verbatim>\<open>_model_lock\<close>\<close>
  attempts :: nat                 \<comment> \<open>calls of \<^verbatim>\<open>WhisperModel(...)\<close>\<close>
  built :: nat                    \<comment> \<open>calls of \<^verbatim>\<open>WhisperModel(...)\<close> that returned a model\<close>
  pcs :: "tid \<Rightarrow> pc"

definition shared0 :: shared where
  "shared0 = \<lparr>g_model = None, lock = None, attempts = 0, built = 0, pcs = (\<lambda>t. Outer)\<rparr>"

definition step :: "env \<Rightarrow> tid \<Rightarrow> shared \<Rightarrow> shared" where
  "step en t s =
     (case pcs s t of
        Outer \<Rightarrow> s\<lparr>pcs := (pcs s)(t := if g_model s = None then Acquire else Return)\<rparr>
      | Acquire \<Rightarrow>
          if lock s = None then s\<lparr>lock := Some t, pcs := (pcs s)(t := Inner)\<rparr> else s
      | Inner \<Rightarrow> s\<lparr>pcs := (pcs s)(t := if g_model s = None then Construct else Release)\<rparr>
      | Construct \<Rightarrow>
          (case load_model en (attempts s) of
             None \<Rightarrow> s\<lparr>attempts := attempts s + 1, built := built s + 1,
                       pcs := (pcs s)(t := Assign (attempts s))\<rparr>
           | Some e \<Rightarrow> s\<lparr>attempts := attempts s + 1, pcs := (pcs s)(t := ReleaseRaise)\<rparr>)
      | Assign h \<Rightarrow> s\<lparr>g_model := Some h, pcs := (pcs s)(t := Release)\<rparr>
      | Release \<Rightarrow> s\<lparr>lock := None, pcs := (pcs s)(t := Return)\<rparr>
      | ReleaseRaise \<Rightarrow> s\<lparr>lock := None, pcs := (pcs s)(t := Raised)\<rparr>
      | Return \<Rightarrow> s\<lparr>pcs := (pcs s)(t := Done (g_model s))\<rparr>
      | Done r \<Rightarrow> s
      | Raised \<Rightarrow> s)"

text \<open>A schedule is the order in which the threads take their steps.\<close>

fun run :: "env \<Rightarrow> tid list \<Rightarrow> shared \<Rightarrow> shared" where
  "run en [] s = s"
| "run en (t # ts) s = run en ts (step en t s)"

definition always_loads :: env where
  "always_loads = \<lparr>load_model = (\<lambda>n. None), run_model = (\<lambda>h c. Inr [])\<rparr>"

text \<open>
  The invariant of double-checked locking, thread by thread: what holds of the shared
  variables while thread \<open>t\<close> is at a given statement. The lock is held exactly by the
  thread inside the \<^verbatim>\<open>with\<close> block; a thread about to build has seen no model and
  none has been built; a built model is either stored in \<^verbatim>\<open>_model\<close> or in the
  hands of the thread about to store it; a thread past the block, and every caller that
  has returned, sees the stored model.
\<close>

fun at_pc :: "shared \<Rightarrow> tid \<Rightarrow> pc \<Rightarrow> bool" where
  "at_pc s t Outer = (lock s \<noteq> Some t)"
| "at_pc s t Acquire = (lock s \<noteq> Some t)"
| "at_pc s t Inner = (lock s = Some t \<and> (g_model s = None \<longrightarrow> built s = 0))"
| "at_pc s t Construct = (lock s = Some t \<and> g_model s = None \<and> built s = 0)"
| "at_pc s t (Assign h) = (lock s = Some t \<and> g_model s = None \<and> built s = 1)"
| "at_pc s t Release = (lock s = Some t \<and> g_model s \<noteq> None)"
| "at_pc s t ReleaseRaise = (lock s = Some t \<and> g_model s = None \<and> built s = 0)"
| "at_pc s t Return = (lock s \<noteq> Some t \<and> g_model s \<noteq> None)"
| "at_pc s t (Done r) = (lock s \<noteq> Some t \<and> r = g_model s \<and> r \<noteq> None)"
| "at_pc s t Raised = (lock s \<noteq> Some t)"

definition once :: "shared \<Rightarrow> bool" where
  "once s \<longleftrightarrow>
     (\<forall>t. at_pc s t (pcs s t))
   \<and> built s \<le> 1
   \<and> (g_model s \<noteq> None \<longrightarrow> built s = 1)
   \<and> (lock s = None \<and> g_model s = None \<longrightarrow> built s = 0)"

text \<open>
  A caller has finished when it has received a handle or the exception. The number of
  statements a thread has left at most, and the schedule that lets the callers
  \<open>ts\<close> finish from a state \<open>s\<close>: the holder of the lock, if there is one, leaves
  the \<^verbatim>\<open>with\<close> block and returns, then each caller runs in turn.
\<close>

fun finished :: "pc \<Rightarrow> bool" where
  "finished (Done r) = True"
| "finished Raised = True"
| "finished p = False"

fun remaining :: "pc \<Rightarrow> nat" where
  "remaining Outer = 7"
| "remaining Acquire = 6"
| "remaining Inner = 5"
| "remaining Construct = 4"
| "remaining (Assign h) = 3"
| "remaining Release = 2"
| "remaining ReleaseRaise = 1"
| "remaining Return = 1"
| "remaining (Done r) = 0"
| "remaining Raised = 0"

definition drain :: "shared \<Rightarrow> tid list \<Rightarrow> tid list" where
  "drain s ts =
     (case lock s of None \<Rightarrow> [] | Some u \<Rightarrow> replicate 5 u) @ concat (map (replicate 7) ts)"

section \<open>Properties of the silence-triggered capture\<close>


lemma lockstep_Nil: "lockstep [] = []"
  by (simp add: lockstep_def)

lemma lockstep_Cons: "lockstep (f # fs) = Frame f # Poll # lockstep fs"
  by (simp add: lockstep_def)

lemma lockstep_append: "lockstep (fs @ gs) = lockstep fs @ lockstep gs"
  by (simp add: lockstep_def)

lemma listen_prefix:
  "listen md thr ms s es = Some r \<Longrightarrow> listen md thr ms s (es @ es') = Some r"
  by (induction md thr ms s es rule: listen.induct) (auto split: option.splits)

lemma chunks_callback: "chunks (callback thr f s) = chunks s @ [f]"
  by (simp add: callback_def Let_def)

lemma callback_loud:
  "exceeds (level f) thr \<Longrightarrow>
   callback thr f s = \<lparr>chunks = chunks s @ [f], silent_chunks = 0, speaking_started = True\<rparr>"
  by (simp add: callback_def Let_def)

lemma callback_quiet:
  "\<not> exceeds (level f) thr \<Longrightarrow>
   callback thr f s =
     s\<lparr>chunks := chunks s @ [f],
       silent_chunks := (if speaking_started s then silent_chunks s + 1 else silent_chunks s)\<rparr>"
  by (simp add: callback_def Let_def)

lemma listen_loud:
  assumes "\<forall>f \<in> set fs. exceeds (level f) thr" and "fs \<noteq> []" and "1 \<le> ms"
    and "real (length (chunks s) + length fs) * (1 / 10) < md"
  shows "listen md thr ms s (lockstep fs @ es) =
         listen md thr ms \<lparr>chunks = chunks s @ fs, silent_chunks = 0, speaking_started = True\<rparr> es"
  using assms
proof (induction fs arbitrary: s)
  case Nil
  then show ?case by simp
next
  case (Cons f fs)
  let ?s1 = "\<lparr>chunks = chunks s @ [f], silent_chunks = 0, speaking_started = True\<rparr>"
  have cb: "callback thr f s = ?s1" using Cons.prems(1) by (simp add: callback_loud)
  have "real (length (chunks ?s1)) * (1 / 10) < md" using Cons.prems(4) by simp
  then have chk: "check md ms ?s1 = None" using Cons.prems(3) by (simp add: check_def)
  show ?case
  proof (cases "fs = []")
    case True
    then show ?thesis by (simp add: lockstep_Cons lockstep_Nil cb chk)
  next
    case False
    have "listen md thr ms ?s1 (lockstep fs @ es) =
          listen md thr ms \<lparr>chunks = chunks ?s1 @ fs, silent_chunks = 0, speaking_started = True\<rparr> es"
      using Cons.prems False by (intro Cons.IH) auto
    then show ?thesis by (simp add: lockstep_Cons cb chk)
  qed
qed

lemma listen_quiet:
  assumes "\<forall>f \<in> set fs. \<not> exceeds (level f) thr"
    and "speaking_started s" and "silent_chunks s < ms"
    and "nat (ms - silent_chunks s) \<le> length fs"
    and "real (length (chunks s) + nat (ms - silent_chunks s) - 1) * (1 / 10) < md"
  shows "listen md thr ms s (lockstep fs) =
         Some (ENDED_SILENCE,
               \<lparr>chunks = chunks s @ take (nat (ms - silent_chunks s)) fs, silent_chunks = ms,
                speaking_started = True\<rparr>)"
  using assms
proof (induction fs arbitrary: s)
  case Nil
  then show ?case by simp
next
  case (Cons f fs)
  let ?s1 = "\<lparr>chunks = chunks s @ [f], silent_chunks = silent_chunks s + 1, speaking_started = True\<rparr>"
  have cb: "callback thr f s = ?s1" using Cons.prems(1,2) by (simp add: callback_quiet)
  show ?case
  proof (cases "silent_chunks s + 1 = ms")
    case True
    then have "check md ms ?s1 = Some ENDED_SILENCE" by (simp add: check_def)
    moreover have "nat (ms - silent_chunks s) = 1" using True by simp
    ultimately show ?thesis using True by (simp add: lockstep_Cons cb)
  next
    case False
    then have lt: "silent_chunks ?s1 < ms" using Cons.prems(3) by simp
    have n: "nat (ms - silent_chunks s) = Suc (nat (ms - silent_chunks ?s1))" using lt by simp
    have "real (length (chunks ?s1)) * (1 / 10) < md"
      using Cons.prems(5) lt n by simp
    then have chk: "check md ms ?s1 = None" using lt by (simp add: check_def)
    have "listen md thr ms ?s1 (lockstep fs) =
         Some (ENDED_SILENCE,
               \<lparr>chunks = chunks ?s1 @ take (nat (ms - silent_chunks ?s1)) fs, silent_chunks = ms,
                speaking_started = True\<rparr>)"
      using Cons.prems lt n by (intro Cons.IH) auto
    then show ?thesis using n by (simp add: lockstep_Cons cb chk)
  qed
qed


lemma listen_lockstep_chunks:
  "listen md thr ms s (lockstep fs) = Some (e, s') \<Longrightarrow>
   \<exists>j. 1 \<le> j \<and> j \<le> length fs \<and> chunks s' = chunks s @ take j fs"
proof (induction fs arbitrary: s)
  case Nil
  then show ?case by (simp add: lockstep_Nil)
next
  case (Cons f fs)
  show ?case
  proof (cases "check md ms (callback thr f s)")
    case None
    with Cons.prems have "listen md thr ms (callback thr f s) (lockstep fs) = Some (e, s')"
      by (simp add: lockstep_Cons)
    then obtain j where "1 \<le> j" "j \<le> length fs" "chunks s' = chunks (callback thr f s) @ take j fs"
      using Cons.IH by blast
    then have "1 \<le> Suc j \<and> Suc j \<le> length (f # fs) \<and> chunks s' = chunks s @ take (Suc j) (f # fs)"
      by (simp add: chunks_callback)
    then show ?thesis by blast
  next
    case (Some e')
    with Cons.prems have "s' = callback thr f s" by (simp add: lockstep_Cons)
    then have "1 \<le> (1::nat) \<and> 1 \<le> length (f # fs) \<and> chunks s' = chunks s @ take 1 (f # fs)"
      by (simp add: chunks_callback)
    then show ?thesis by blast
  qed
qed

text \<open>
  Callbacks and polls in any order: the variables depend on the blocks delivered only,
  and the loop leaves at the first poll whose test succeeds.
\<close>

lemma frames_of_append: "frames_of (p @ q) = frames_of p @ frames_of q"
  by (induction p rule: frames_of.induct) simp_all

lemma frames_of_map_Frame: "frames_of (map Frame gs) = gs"
  by (induction gs) simp_all

lemma variables_frames:
  "variables thr s es = foldl (\<lambda>s f. callback thr f s) s (frames_of es)"
  by (induction thr s es rule: variables.induct) simp_all

lemma listen_Some_split:
  "listen md thr ms s es = Some (e, s') \<Longrightarrow>
   \<exists>p q. es = p @ Poll # q \<and> s' = variables thr s p \<and> check md ms s' = Some e"
proof (induction md thr ms s es rule: listen.induct)
  case (1 md thr ms s)
  then show ?case by simp
next
  case (2 md thr ms s f es)
  then obtain p q where "es = p @ Poll # q" "s' = variables thr (callback thr f s) p"
      "check md ms s' = Some e"
    by auto
  then have "Frame f # es = (Frame f # p) @ Poll # q \<and> s' = variables thr s (Frame f # p)
      \<and> check md ms s' = Some e"
    by simp
  then show ?case by blast
next
  case (3 md thr ms s es)
  show ?case
  proof (cases "check md ms s")
    case None
    then obtain p q where "es = p @ Poll # q" "s' = variables thr s p" "check md ms s' = Some e"
      using 3 by auto
    then have "Poll # es = (Poll # p) @ Poll # q \<and> s' = variables thr s (Poll # p)
      \<and> check md ms s' = Some e"
      by simp
    then show ?thesis by blast
  next
    case (Some e')
    then have "Poll # es = [] @ Poll # es \<and> s' = variables thr s [] \<and> check md ms s' = Some e"
      using "3.prems" by simp
    then show ?thesis by blast
  qed
qed

lemma listen_through:
  assumes "\<forall>p q. pre = p @ Poll # q \<longrightarrow> check md ms (variables thr s p) = None"
  shows "listen md thr ms s (pre @ rest) = listen md thr ms (variables thr s pre) rest"
  using assms
proof (induction pre arbitrary: s)
  case Nil
  then show ?case by simp
next
  case (Cons ev pre)
  show ?case
  proof (cases ev)
    case (Frame f)
    have "\<forall>p q. pre = p @ Poll # q \<longrightarrow> check md ms (variables thr (callback thr f s) p) = None"
    proof (intro allI impI)
      fix p q assume "pre = p @ Poll # q"
      then have "ev # pre = (Frame f # p) @ Poll # q" using Frame by simp
      then have "check md ms (variables thr s (Frame f # p)) = None" using Cons.prems by blast
      then show "check md ms (variables thr (callback thr f s) p) = None" by simp
    qed
    then show ?thesis using Frame Cons.IH by simp
  next
    case Poll
    have "ev # pre = [] @ Poll # pre" using Poll by simp
    then have c: "check md ms (variables thr s []) = None" using Cons.prems by blast
    have "\<forall>p q. pre = p @ Poll # q \<longrightarrow> check md ms (variables thr s p) = None"
    proof (intro allI impI)
      fix p q assume "pre = p @ Poll # q"
      then have "ev # pre = (Poll # p) @ Poll # q" using Poll by simp
      then have "check md ms (variables thr s (Poll # p)) = None" using Cons.prems by blast
      then show "check md ms (variables thr s p) = None" by simp
    qed
    then show ?thesis using Poll Cons.IH c by simp
  qed
qed

lemma poll_in_front:
  assumes "pre @ map Frame gs = p @ Poll # q"
  shows "\<exists>q'. pre = p @ Poll # q'"
proof -
  from assms consider us where "pre = p @ us" "us @ map Frame gs = Poll # q"
    | us where "pre @ us = p" "map Frame gs = us @ Poll # q"
    by (auto simp: append_eq_append_conv2)
  then show ?thesis
  proof cases
    case 1
    then show ?thesis by (cases us) auto
  next
    case 2
    then have "Poll \<in> set (map Frame gs)" by simp
    then show ?thesis by auto
  qed
qed

lemma stream_state_gen:
  assumes loud: "\<forall>i < Suc k. i < length fs \<longrightarrow> exceeds (level (fs ! i)) thr"
    and quiet: "\<forall>i \<ge> Suc k. i < length fs \<longrightarrow> \<not> exceeds (level (fs ! i)) thr"
    and j: "j \<le> length fs"
  shows "foldl (\<lambda>s f. callback thr f s) session0 (take j fs) =
         \<lparr>chunks = take j fs,
          silent_chunks = (if j \<le> Suc k then 0 else int j - int (Suc k)),
          speaking_started = (0 < j)\<rparr>"
  using j
proof (induction j)
  case 0
  then show ?case by (simp add: session0_def)
next
  case (Suc j)
  let ?st = "\<lparr>chunks = take j fs,
          silent_chunks = (if j \<le> Suc k then 0 else int j - int (Suc k)),
          speaking_started = (0 < j)\<rparr>"
  have lt: "j < length fs" using Suc.prems by simp
  have t: "take (Suc j) fs = take j fs @ [fs ! j]" using lt by (rule take_Suc_conv_app_nth)
  have ih: "foldl (\<lambda>s f. callback thr f s) session0 (take j fs) = ?st"
    using Suc by simp
  have step: "foldl (\<lambda>s f. callback thr f s) session0 (take (Suc j) fs) = callback thr (fs ! j) ?st"
    by (simp only: t foldl_append ih) simp
  show ?case
  proof (cases "j < Suc k")
    case True
    then have "exceeds (level (fs ! j)) thr" using loud lt by blast
    then have "callback thr (fs ! j) ?st =
        \<lparr>chunks = chunks ?st @ [fs ! j], silent_chunks = 0, speaking_started = True\<rparr>"
      by (rule callback_loud)
    with step have fin: "foldl (\<lambda>s f. callback thr f s) session0 (take (Suc j) fs) =
        \<lparr>chunks = chunks ?st @ [fs ! j], silent_chunks = 0, speaking_started = True\<rparr>"
      by (rule trans)
    show ?thesis unfolding fin using True t by simp
  next
    case False
    then have "\<not> exceeds (level (fs ! j)) thr" using quiet lt by simp
    then have "callback thr (fs ! j) ?st =
        ?st\<lparr>chunks := chunks ?st @ [fs ! j],
           silent_chunks := (if speaking_started ?st then silent_chunks ?st + 1
                             else silent_chunks ?st)\<rparr>"
      by (rule callback_quiet)
    with step have fin: "foldl (\<lambda>s f. callback thr f s) session0 (take (Suc j) fs) =
        ?st\<lparr>chunks := chunks ?st @ [fs ! j],
           silent_chunks := (if speaking_started ?st then silent_chunks ?st + 1
                             else silent_chunks ?st)\<rparr>"
      by (rule trans)
    show ?thesis unfolding fin using False t by auto
  qed
qed

lemma stream_state:
  assumes loud: "\<forall>f \<in> set loud. exceeds (level f) thr"
    and k: "length loud = Suc k"
    and quiet: "\<forall>f \<in> set quiet. \<not> exceeds (level f) thr"
    and j: "j \<le> length (loud @ quiet)"
  shows "foldl (\<lambda>s f. callback thr f s) session0 (take j (loud @ quiet)) =
         \<lparr>chunks = take j (loud @ quiet),
          silent_chunks = (if j \<le> Suc k then 0 else int j - int (Suc k)),
          speaking_started = (0 < j)\<rparr>"
proof (rule stream_state_gen [OF _ _ j])
  show "\<forall>i < Suc k. i < length (loud @ quiet) \<longrightarrow> exceeds (level ((loud @ quiet) ! i)) thr"
    using loud k by (simp add: nth_append)
  show "\<forall>i \<ge> Suc k. i < length (loud @ quiet) \<longrightarrow> \<not> exceeds (level ((loud @ quiet) ! i)) thr"
  proof (intro allI impI)
    fix i assume "Suc k \<le> i" "i < length (loud @ quiet)"
    then have "(loud @ quiet) ! i = quiet ! (i - Suc k)" "i - Suc k < length quiet"
      using k by (simp_all add: nth_append)
    then show "\<not> exceeds (level ((loud @ quiet) ! i)) thr" using quiet by simp
  qed
qed

lemma prefix_take: "xs @ later = fs \<Longrightarrow> xs = take (length xs) fs \<and> length xs \<le> length fs"
  by auto


lemma silence_stop_lockstep:
  assumes loud: "\<forall>f \<in> set loud. exceeds (level f) silence_threshold"
    and k: "length loud = Suc k"
    and quiet: "\<forall>f \<in> set quiet. \<not> exceeds (level f) silence_threshold"
    and m: "nat max_silent \<le> length quiet"
    and ms: "1 \<le> max_silent"
    and dur: "real (k + nat max_silent) * (1 / 10) < max_duration"
  shows "listen max_duration silence_threshold max_silent session0 (lockstep (loud @ quiet)) =
         Some (ENDED_SILENCE,
               \<lparr>chunks = loud @ take (nat max_silent) quiet,
                silent_chunks = max_silent, speaking_started = True\<rparr>)"
proof -
  let ?s1 = "\<lparr>chunks = chunks session0 @ loud, silent_chunks = 0, speaking_started = True\<rparr>"
  have ne: "loud \<noteq> []" using k by auto
  have d1: "real (length (chunks session0) + length loud) * (1 / 10) < max_duration"
  proof -
    have "real (length (chunks session0) + length loud) \<le> real (k + nat max_silent)"
      using k ms by (simp add: session0_def)
    then show ?thesis using dur by simp
  qed
  have a: "listen max_duration silence_threshold max_silent session0
             (lockstep loud @ lockstep quiet) =
        listen max_duration silence_threshold max_silent ?s1 (lockstep quiet)"
    using loud ne ms d1 by (rule listen_loud)
  have b: "listen max_duration silence_threshold max_silent ?s1 (lockstep quiet) =
        Some (ENDED_SILENCE,
               \<lparr>chunks = chunks ?s1 @ take (nat (max_silent - silent_chunks ?s1)) quiet,
                silent_chunks = max_silent, speaking_started = True\<rparr>)"
    using quiet ms m dur k by (intro listen_quiet) (auto simp: session0_def)
  show ?thesis using a b by (simp add: lockstep_append session0_def)
qed

text \<open>
  Claim C1, as amended. \<open>max_silent\<close> is the integer the program computed for
  \<^verbatim>\<open>int(silence_duration / 0.1)\<close>, whatever it is. Blocks \<open>0..k\<close> are above the
  threshold and the \<open>m\<close> blocks after them are not, with \<open>m\<close> at least
  \<open>max_silent\<close>; at least one silent block is asked for (\<open>max_silent \<ge> 1\<close>) and the
  ceiling is not reached before the last of them
  (\<open>(k + max_silent) * 0.1 < max_duration\<close>). Then:
  \<^item> when the loop polls once after every block, the recorder leaves by the silence test
    exactly after block number \<open>k + 1 + max_silent\<close>, counting from one, holding the
    loud blocks and the first \<open>max_silent\<close> silent ones, and it has not left after any
    smaller number of blocks;
  \<^item> whatever the order of callbacks and polls, the recorder does not leave before block
    \<open>k + 1 + max_silent\<close> has been recorded, and when it leaves it is by the silence
    test;
  \<^item> whatever the order of callbacks and polls, the recorder leaves at the first poll
    that comes after block \<open>k + 1 + max_silent\<close>, by the silence test, holding the
    blocks delivered until then.
\<close>

theorem silence_stop_exact:
  assumes loud: "\<forall>f \<in> set loud. exceeds (level f) silence_threshold"
    and k: "length loud = Suc k"
    and quiet: "\<forall>f \<in> set quiet. \<not> exceeds (level f) silence_threshold"
    and m: "nat max_silent \<le> length quiet"
    and ms: "1 \<le> max_silent"
    and dur: "real (k + nat max_silent) * (1 / 10) < max_duration"
  shows "listen max_duration silence_threshold max_silent session0 (lockstep (loud @ quiet)) =
         Some (ENDED_SILENCE,
               \<lparr>chunks = loud @ take (nat max_silent) quiet,
                silent_chunks = max_silent, speaking_started = True\<rparr>)
       \<and> stopped_at (listen max_duration silence_threshold max_silent session0
           (lockstep (loud @ quiet))) =
         Some (ENDED_SILENCE, k + 1 + nat max_silent)
       \<and> (\<forall>n < k + 1 + nat max_silent.
            listen max_duration silence_threshold max_silent session0
              (lockstep (take n (loud @ quiet))) = None)
       \<and> (\<forall>es later e s.
            frames_of es @ later = loud @ quiet
            \<and> listen max_duration silence_threshold max_silent session0 es = Some (e, s) \<longrightarrow>
            e = ENDED_SILENCE \<and> k + 1 + nat max_silent \<le> length (chunks s))
       \<and> (\<forall>pre gs later post.
            frames_of pre @ gs @ later = loud @ quiet
            \<and> length (frames_of pre) < k + 1 + nat max_silent
            \<and> k + 1 + nat max_silent \<le> length (frames_of pre @ gs) \<longrightarrow>
            listen max_duration silence_threshold max_silent session0
              (pre @ map Frame gs @ Poll # post) =
            Some (ENDED_SILENCE,
                  \<lparr>chunks = frames_of pre @ gs,
                   silent_chunks = int (length (frames_of pre @ gs)) - int (Suc k),
                   speaking_started = True\<rparr>))"
proof -
  let ?fs = "loud @ quiet"
  let ?N = "k + 1 + nat max_silent"
  let ?L = "listen max_duration silence_threshold max_silent"
  let ?st = "\<lambda>j. \<lparr>chunks = take j ?fs,
          silent_chunks = (if j \<le> Suc k then 0 else int j - int (Suc k)),
          speaking_started = (0 < j)\<rparr>"
  \<comment> \<open>the variables after the blocks of any part of the stream\<close>
  have after: "variables silence_threshold session0 p = ?st (length (frames_of p))
               \<and> length (frames_of p) \<le> length ?fs"
    if "frames_of p @ later = ?fs" for p later
  proof -
    have t: "frames_of p = take (length (frames_of p)) ?fs"
      and l: "length (frames_of p) \<le> length ?fs"
      using prefix_take [OF that] by simp_all
    have "variables silence_threshold session0 p =
          foldl (\<lambda>s f. callback silence_threshold f s) session0 (take (length (frames_of p)) ?fs)"
      using t by (simp add: variables_frames)
    then show ?thesis using stream_state [OF loud k quiet l] l by simp
  qed
  \<comment> \<open>no test succeeds before block N, the silence test succeeds from block N on\<close>
  have early: "check max_duration max_silent (?st j) = None" if "j < ?N" for j
  proof -
    have "real j * (1 / 10) \<le> real (k + nat max_silent) * (1 / 10)" using that by simp
    then have "real j * (1 / 10) < max_duration" using dur by simp
    moreover have "real (length (take j ?fs)) * (1 / 10) \<le> real j * (1 / 10)" by simp
    ultimately have "real (length (take j ?fs)) * (1 / 10) < max_duration"
      by (rule order.strict_trans1 [rotated])
    then show ?thesis using that ms by (auto simp: check_def)
  qed
  have late: "check max_duration max_silent (?st j) = Some ENDED_SILENCE" if "?N \<le> j" for j
    using that ms by (auto simp: check_def)
  have full: "?L session0 (lockstep ?fs) =
         Some (ENDED_SILENCE,
               \<lparr>chunks = loud @ take (nat max_silent) quiet,
                silent_chunks = max_silent, speaking_started = True\<rparr>)"
    using assms by (rule silence_stop_lockstep)
  have len: "stopped_at (?L session0 (lockstep ?fs)) = Some (ENDED_SILENCE, ?N)"
    using k m by (simp add: full stopped_at_def)
  \<comment> \<open>any order of callbacks and polls: no exit before block N\<close>
  have any: "e = ENDED_SILENCE \<and> ?N \<le> length (chunks s)"
    if fr: "frames_of es @ later = ?fs" and l: "?L session0 es = Some (e, s)" for es later e s
  proof -
    obtain p q where es: "es = p @ Poll # q" and s: "s = variables silence_threshold session0 p"
      and c: "check max_duration max_silent s = Some e"
      using listen_Some_split [OF l] by blast
    have "frames_of p @ (frames_of q @ later) = ?fs"
      using fr es by (simp add: frames_of_append)
    then have st: "s = ?st (length (frames_of p))" and le: "length (frames_of p) \<le> length ?fs"
      using after s by blast+
    have N: "?N \<le> length (frames_of p)"
    proof (rule ccontr)
      assume "\<not> ?N \<le> length (frames_of p)"
      then have "check max_duration max_silent (?st (length (frames_of p))) = None"
        by (intro early) simp
      then show False using c st by simp
    qed
    then have "check max_duration max_silent (?st (length (frames_of p))) = Some ENDED_SILENCE"
      by (rule late)
    then have "e = ENDED_SILENCE" using c st by simp
    moreover have "length (chunks s) = length (frames_of p)" using st le by simp
    ultimately show ?thesis using N by simp
  qed
  have early_lockstep: "?L session0 (lockstep (take n ?fs)) = None" if n: "n < ?N" for n
  proof (rule ccontr)
    assume "?L session0 (lockstep (take n ?fs)) \<noteq> None"
    then obtain e s where r: "?L session0 (lockstep (take n ?fs)) = Some (e, s)" by auto
    then obtain j where j: "j \<le> length (take n ?fs)"
        "chunks s = chunks session0 @ take j (take n ?fs)"
      using listen_lockstep_chunks by blast
    have "?L session0 (lockstep (take n ?fs) @ lockstep (drop n ?fs)) = Some (e, s)"
      using r by (rule listen_prefix)
    then have "?L session0 (lockstep ?fs) = Some (e, s)"
      by (simp only: lockstep_append [symmetric] append_take_drop_id)
    then have "length (chunks s) = ?N" using len by (simp add: stopped_at_def)
    moreover have "length (chunks s) \<le> n" using j by (simp add: session0_def)
    ultimately show False using n by simp
  qed
  \<comment> \<open>any order of callbacks and polls: exit at the first poll after block N\<close>
  have first: "?L session0 (pre @ map Frame gs @ Poll # post) =
            Some (ENDED_SILENCE,
                  \<lparr>chunks = frames_of pre @ gs,
                   silent_chunks = int (length (frames_of pre @ gs)) - int (Suc k),
                   speaking_started = True\<rparr>)"
    if fr: "frames_of pre @ gs @ later = ?fs" and b: "length (frames_of pre) < ?N"
      and a: "?N \<le> length (frames_of pre @ gs)" for pre gs later post
  proof -
    let ?pre = "pre @ map Frame gs"
    have quiet_so_far: "\<forall>p q. ?pre = p @ Poll # q \<longrightarrow>
            check max_duration max_silent (variables silence_threshold session0 p) = None"
    proof (intro allI impI)
      fix p q assume "?pre = p @ Poll # q"
      then obtain q' where pre: "pre = p @ Poll # q'" using poll_in_front by blast
      then have "frames_of p @ (frames_of q' @ gs @ later) = ?fs"
        using fr by (simp add: frames_of_append)
      then have st: "variables silence_threshold session0 p = ?st (length (frames_of p))"
        using after by blast
      have "length (frames_of p) < ?N" using b pre by (simp add: frames_of_append)
      then show "check max_duration max_silent (variables silence_threshold session0 p) = None"
        unfolding st by (rule early)
    qed
    have fp: "frames_of ?pre = frames_of pre @ gs"
      by (simp add: frames_of_append frames_of_map_Frame)
    then have "frames_of ?pre @ later = ?fs" using fr by simp
    then have st: "variables silence_threshold session0 ?pre = ?st (length (frames_of ?pre))"
      and le: "length (frames_of ?pre) \<le> length ?fs"
      using after by blast+
    have t: "take (length (frames_of ?pre)) ?fs = frames_of pre @ gs"
      using fr fp by (metis append.assoc append_eq_conv_conj)
    have c: "check max_duration max_silent (?st (length (frames_of ?pre))) = Some ENDED_SILENCE"
      using a fp by (intro late) simp
    have "?L session0 (?pre @ Poll # post) =
          ?L (variables silence_threshold session0 ?pre) (Poll # post)"
      using quiet_so_far by (rule listen_through)
    also have "\<dots> = Some (ENDED_SILENCE, ?st (length (frames_of ?pre)))"
      using c st by simp
    also have "?st (length (frames_of ?pre)) =
          \<lparr>chunks = frames_of pre @ gs,
           silent_chunks = int (length (frames_of pre @ gs)) - int (Suc k),
           speaking_started = True\<rparr>"
      using a ms t fp by auto
    finally show ?thesis by simp
  qed
  show ?thesis
    using full len early_lockstep any first by (intro conjI allI impI) blast+
qed


text \<open>
  The default parameters (\<open>max_silent = 15\<close>), two loud blocks and sixteen silent
  ones. With one poll after every block the recorder leaves after block seventeen and
  is still recording after block sixteen; with a single poll after the last block it
  leaves there, holding all eighteen.
\<close>

theorem silence_stop_exact_witness:
  "listen 30 (1 / 100) 15 session0 (lockstep ([ [1 / 2], [1 / 2] ] @ replicate 16 [0])) =
         Some (ENDED_SILENCE,
               \<lparr>chunks = [ [1 / 2], [1 / 2] ] @ take (nat 15) (replicate 16 [0]),
                silent_chunks = 15, speaking_started = True\<rparr>)
   \<and> stopped_at (listen 30 (1 / 100) 15 session0
           (lockstep ([ [1 / 2], [1 / 2] ] @ replicate 16 [0]))) =
         Some (ENDED_SILENCE, 1 + 1 + nat 15)
   \<and> listen 30 (1 / 100) 15 session0
        (lockstep (take 16 ([ [1 / 2], [1 / 2] ] @ replicate 16 [0]))) = None
   \<and> listen 30 (1 / 100) 15 session0
        (lockstep [ [1 / 2], [1 / 2] ] @ map Frame (replicate 16 [0]) @ Poll # []) =
         Some (ENDED_SILENCE,
               \<lparr>chunks = frames_of (lockstep [ [1 / 2], [1 / 2] ]) @ replicate 16 [0],
                silent_chunks =
                  int (length (frames_of (lockstep [ [1 / 2], [1 / 2] ]) @ replicate 16 [0]))
                  - int (Suc 1),
                speaking_started = True\<rparr>)"
proof -
  have h1: "\<forall>f \<in> set [ [1 / 2], [1 / 2 :: real] ]. exceeds (level f) (1 / 100)"
    by (simp add: level_def exceeds_def)
  have h2: "length [ [1 / 2], [1 / 2 :: real] ] = Suc 1" by simp
  have h3: "\<forall>f \<in> set (replicate 16 [0 :: real]). \<not> exceeds (level f) (1 / 100)"
    by (simp add: level_def exceeds_def)
  have h4: "nat 15 \<le> length (replicate 16 [0 :: real])" by simp
  have h5: "1 \<le> (15 :: int)" by simp
  have h6: "real (1 + nat 15) * (1 / 10) < 30" by simp
  note u = silence_stop_exact [OF h1 h2 h3 h4 h5 h6]
  have n: "(16 :: nat) < 1 + 1 + nat 15" by simp
  have p: "frames_of (lockstep [ [1 / 2], [1 / 2 :: real] ]) @ replicate 16 [0] @ []
             = [ [1 / 2], [1 / 2] ] @ replicate 16 [0]
           \<and> length (frames_of (lockstep [ [1 / 2], [1 / 2 :: real] ])) < 1 + 1 + nat 15
           \<and> 1 + 1 + nat 15
              \<le> length (frames_of (lockstep [ [1 / 2], [1 / 2 :: real] ]) @ replicate 16 [0])"
    by (simp add: lockstep_def)
  from u have a: "listen 30 (1 / 100) 15 session0
        (lockstep ([ [1 / 2], [1 / 2] ] @ replicate 16 [0])) =
         Some (ENDED_SILENCE,
               \<lparr>chunks = [ [1 / 2], [1 / 2] ] @ take (nat 15) (replicate 16 [0]),
                silent_chunks = 15, speaking_started = True\<rparr>)"
    by (rule conjunct1)
  from u have b: "stopped_at (listen 30 (1 / 100) 15 session0
           (lockstep ([ [1 / 2], [1 / 2] ] @ replicate 16 [0]))) =
         Some (ENDED_SILENCE, 1 + 1 + nat 15)"
    by (rule conjunct2 [THEN conjunct1])
  from u n have c: "listen 30 (1 / 100) 15 session0
        (lockstep (take 16 ([ [1 / 2], [1 / 2] ] @ replicate 16 [0]))) = None"
    by blast
  from u have "\<forall>pre gs later post.
            frames_of pre @ gs @ later = [ [1 / 2], [1 / 2] ] @ replicate 16 [0]
            \<and> length (frames_of pre) < 1 + 1 + nat 15
            \<and> 1 + 1 + nat 15 \<le> length (frames_of pre @ gs) \<longrightarrow>
            listen 30 (1 / 100) 15 session0 (pre @ map Frame gs @ Poll # post) =
            Some (ENDED_SILENCE,
                  \<lparr>chunks = frames_of pre @ gs,
                   silent_chunks = int (length (frames_of pre @ gs)) - int (Suc 1),
                   speaking_started = True\<rparr>)"
    by (rule conjunct2 [THEN conjunct2, THEN conjunct2, THEN conjunct2])
  with p have d: "listen 30 (1 / 100) 15 session0
        (lockstep [ [1 / 2], [1 / 2] ] @ map Frame (replicate 16 [0]) @ Poll # []) =
         Some (ENDED_SILENCE,
               \<lparr>chunks = frames_of (lockstep [ [1 / 2], [1 / 2] ]) @ replicate 16 [0],
                silent_chunks =
                  int (length (frames_of (lockstep [ [1 / 2], [1 / 2] ]) @ replicate 16 [0]))
                  - int (Suc 1),
                speaking_started = True\<rparr>)"
    by blast
  show ?thesis using a b c d by (intro conjI)
qed

text \<open>
  Claim C1 as stated fails when the ceiling comes first. With the default parameters
  (\<open>max_duration = 30\<close>, threshold \<open>0.01\<close>, \<open>max_silent = 15\<close>), 300 loud blocks
  followed by 15 silent blocks make the recorder leave after block 300 by the
  \<^verbatim>\<open>max_duration\<close> test, not after block 315 by the silence test.
\<close>

theorem silence_stop_ceiling_counterexample:
  "exceeds (level [1]) (1 / 100) \<and> \<not> exceeds (level [0]) (1 / 100)
   \<and> stopped_at (listen 30 (1 / 100) 15 session0
        (lockstep (replicate 300 [1] @ replicate 15 [0]))) = Some (ENDED_MAXDURATION, 300)"
proof -
  let ?s1 = "\<lparr>chunks = chunks session0 @ replicate 299 [1 :: real], silent_chunks = 0,
              speaking_started = True\<rparr>"
  have l: "exceeds (level [1]) (1 / 100)" and q: "\<not> exceeds (level [0]) (1 / 100)"
    by (simp_all add: level_def exceeds_def)
  have split: "replicate 300 [1 :: real] = replicate 299 [1] @ [ [1] ]"
  proof -
    have "(300::nat) = Suc 299" by simp
    then have "replicate 300 [1 :: real] = replicate (Suc 299) [1]" by (simp only:)
    then show ?thesis by (simp only: replicate_Suc replicate_append_same)
  qed
  have "listen 30 (1 / 100) 15 session0
          (lockstep (replicate 299 [1]) @ lockstep ([ [1] ] @ replicate 15 [0])) =
        listen 30 (1 / 100) 15 ?s1 (lockstep ([ [1] ] @ replicate 15 [0]))"
    using l by (intro listen_loud) (simp_all add: session0_def)
  moreover have "callback (1 / 100) [1] ?s1 =
       \<lparr>chunks = chunks ?s1 @ [ [1] ], silent_chunks = 0, speaking_started = True\<rparr>"
    using l by (rule callback_loud)
  moreover have "check 30 15
       \<lparr>chunks = chunks ?s1 @ [ [1] ], silent_chunks = 0, speaking_started = True\<rparr> =
       Some ENDED_MAXDURATION"
    by (simp add: check_def session0_def)
  ultimately have "listen 30 (1 / 100) 15 session0
          (lockstep (replicate 300 [1] @ replicate 15 [0])) =
        Some (ENDED_MAXDURATION,
          \<lparr>chunks = chunks ?s1 @ [ [1] ], silent_chunks = 0, speaking_started = True\<rparr>)"
    by (simp add: split lockstep_append lockstep_Cons)
  then show ?thesis using l q
    by (simp add: stopped_at_def session0_def)
qed

text \<open>
  Why the amended claim asks for one silent block at least: with
  \<^verbatim>\<open>silence_duration\<close> below 0.1 s the program computes \<open>max_silent = 0\<close>, the
  silence test asks for no silent block, and the recorder leaves after the first loud
  block, whatever follows.
\<close>

lemma silence_zero_frames:
  "stopped_at (listen 30 (1 / 100) 0 session0 (lockstep ([ [1], [1] ] @ [ [0] ])))
     = Some (ENDED_SILENCE, 1)"
  by (simp add: lockstep_def callback_def level_def exceeds_def check_def session0_def
                stopped_at_def)

text \<open>
  Why the exact block number is stated for one poll after every block: a poll that comes
  one block late finds one block more.
\<close>

lemma late_poll:
  "stopped_at (listen 30 (1 / 100) 1 session0 (lockstep [ [1], [0], [0] ]))
     = Some (ENDED_SILENCE, 2)
   \<and> stopped_at (listen 30 (1 / 100) 1 session0 [Frame [1], Poll, Frame [0], Frame [0], Poll])
     = Some (ENDED_SILENCE, 3)"
  by (simp add: lockstep_def callback_def level_def exceeds_def check_def session0_def
                stopped_at_def)

lemma callback_quiet_unstarted:
  "\<not> exceeds (level f) thr \<Longrightarrow> \<not> speaking_started s \<Longrightarrow>
   \<not> speaking_started (callback thr f s)"
  by (simp add: callback_def Let_def)

lemma listen_never_loud:
  assumes "\<forall>f. Frame f \<in> set es \<longrightarrow> \<not> exceeds (level f) thr"
    and "\<not> speaking_started s"
    and "listen md thr ms s es = Some (e, s')"
  shows "e = ENDED_MAXDURATION \<and> \<not> speaking_started s'
         \<and> md \<le> real (length (chunks s')) * (1 / 10)"
  using assms
proof (induction md thr ms s es rule: listen.induct)
  case (1 md thr ms s)
  then show ?case by simp
next
  case (2 md thr ms s f es)
  then show ?case by (simp add: callback_quiet_unstarted)
next
  case (3 md thr ms s es)
  show ?case
  proof (cases "check md ms s")
    case None
    then show ?thesis using 3 by simp
  next
    case (Some e')
    then have "e = e'" "s' = s" using "3.prems" by simp_all
    then show ?thesis using Some "3.prems"(2) by (auto simp: check_def split: if_splits)
  qed
qed

lemma listen_reaches_ceiling:
  assumes "fs \<noteq> []" and "md \<le> real (length (chunks s) + length fs) * (1 / 10)"
  shows "listen md thr ms s (lockstep fs) \<noteq> None"
  using assms
proof (induction fs arbitrary: s)
  case Nil
  then show ?case by simp
next
  case (Cons f fs)
  show ?case
  proof (cases "check md ms (callback thr f s)")
    case (Some e)
    then show ?thesis by (simp add: lockstep_Cons)
  next
    case None
    then have lt: "real (length (chunks (callback thr f s))) * (1 / 10) < md"
      by (auto simp: check_def split: if_splits)
    have "fs \<noteq> []" using lt Cons.prems(2) by (auto simp: chunks_callback)
    moreover have "md \<le> real (length (chunks (callback thr f s)) + length fs) * (1 / 10)"
      using Cons.prems(2) by (simp add: chunks_callback)
    ultimately have "listen md thr ms (callback thr f s) (lockstep fs) \<noteq> None"
      by (rule Cons.IH)
    then show ?thesis using None by (simp add: lockstep_Cons)
  qed
qed

lemma variables_never_loud:
  "\<forall>f. Frame f \<in> set es \<longrightarrow> \<not> exceeds (level f) thr \<Longrightarrow> \<not> speaking_started s \<Longrightarrow>
   \<not> speaking_started (variables thr s es)"
  by (induction thr s es rule: variables.induct) (simp_all add: callback_quiet_unstarted)

text \<open>
  Claim C2. No block of the stream is above the threshold; callbacks and polls may come
  in any order. Then \<^verbatim>\<open>speaking_started\<close> is false after every prefix of the events,
  the recorder never leaves by the silence test, and when it leaves it does so by the
  \<^verbatim>\<open>max_duration\<close> test with the recorded blocks times 0.1 s at or above
  \<^verbatim>\<open>max_duration\<close>. When the loop polls once after every block it does leave, exactly
  when there is a block and the stream is that long.
\<close>

theorem never_loud_only_ceiling:
  assumes "\<forall>f. Frame f \<in> set es \<longrightarrow> \<not> exceeds (level f) silence_threshold"
  shows "(\<forall>n. \<not> speaking_started (variables silence_threshold session0 (take n es)))
       \<and> (\<forall>s. listen max_duration silence_threshold max_silent session0 es \<noteq> Some (ENDED_SILENCE, s))
       \<and> (\<forall>e s. listen max_duration silence_threshold max_silent session0 es = Some (e, s) \<longrightarrow>
             e = ENDED_MAXDURATION \<and> max_duration \<le> real (length (chunks s)) * (1 / 10))
       \<and> (\<forall>fs. es = lockstep fs \<longrightarrow>
             (listen max_duration silence_threshold max_silent session0 es \<noteq> None) =
             (fs \<noteq> [] \<and> max_duration \<le> real (length fs) * (1 / 10)))"
proof -
  have s0: "\<not> speaking_started session0" by (simp add: session0_def)
  have a: "\<not> speaking_started (variables silence_threshold session0 (take n es))" for n
  proof -
    have "\<forall>f. Frame f \<in> set (take n es) \<longrightarrow> \<not> exceeds (level f) silence_threshold"
      using assms by (meson in_set_takeD)
    then show ?thesis using s0 by (rule variables_never_loud)
  qed
  have c: "e = ENDED_MAXDURATION \<and> max_duration \<le> real (length (chunks s)) * (1 / 10)"
    if "listen max_duration silence_threshold max_silent session0 es = Some (e, s)" for e s
    using listen_never_loud [OF assms s0 that] by simp
  have b: "listen max_duration silence_threshold max_silent session0 es \<noteq> Some (ENDED_SILENCE, s)" for s
    using c by fastforce
  have d: "(listen max_duration silence_threshold max_silent session0 es \<noteq> None) =
             (fs \<noteq> [] \<and> max_duration \<le> real (length fs) * (1 / 10))" if es: "es = lockstep fs" for fs
  proof
    assume "listen max_duration silence_threshold max_silent session0 es \<noteq> None"
    then obtain e s where r: "listen max_duration silence_threshold max_silent session0 es = Some (e, s)"
      by auto
    then obtain j where j: "1 \<le> j" "j \<le> length fs" "chunks s = chunks session0 @ take j fs"
      using listen_lockstep_chunks es by blast
    have "max_duration \<le> real (length (chunks s)) * (1 / 10)" using c r by blast
    moreover have "length (chunks s) \<le> length fs" using j by (simp add: session0_def)
    ultimately have "max_duration \<le> real (length fs) * (1 / 10)" by simp
    moreover have "fs \<noteq> []" using j by auto
    ultimately show "fs \<noteq> [] \<and> max_duration \<le> real (length fs) * (1 / 10)" by simp
  next
    assume "fs \<noteq> [] \<and> max_duration \<le> real (length fs) * (1 / 10)"
    then show "listen max_duration silence_threshold max_silent session0 es \<noteq> None"
      unfolding es by (intro listen_reaches_ceiling) (simp_all add: session0_def)
  qed
  show ?thesis using a b c d by blast
qed


text \<open>
  Three quiet blocks and a ceiling of 0.2 s: the recorder leaves after the second block,
  by the ceiling.
\<close>

theorem never_loud_only_ceiling_witness:
  "stopped_at (listen (1 / 5) (1 / 100) 15 session0 (lockstep [ [0], [1 / 200], [0] ]))
     = Some (ENDED_MAXDURATION, 2)
   \<and> (\<forall>n. \<not> speaking_started (variables (1 / 100) session0 (take n (lockstep [ [0], [1 / 200], [0] ]))))
   \<and> (\<forall>s. listen (1 / 5) (1 / 100) 15 session0 (lockstep [ [0], [1 / 200], [0] ]) \<noteq> Some (ENDED_SILENCE, s))"
proof -
  have h: "\<forall>f. Frame f \<in> set (lockstep [ [0], [1 / 200], [0] ]) \<longrightarrow> \<not> exceeds (level f) (1 / 100)"
    by (auto simp: lockstep_def level_def exceeds_def)
  note u = never_loud_only_ceiling [OF h, of "1 / 5" 15]
  have e: "stopped_at (listen (1 / 5) (1 / 100) 15 session0 (lockstep [ [0], [1 / 200], [0] ]))
     = Some (ENDED_MAXDURATION, 2)"
    by (simp add: lockstep_def callback_def level_def exceeds_def check_def session0_def
                  stopped_at_def)
  from u have a: "\<forall>n. \<not> speaking_started (variables (1 / 100) session0 (take n (lockstep [ [0], [1 / 200], [0] ])))"
    by (rule conjunct1)
  from u have b: "\<forall>s. listen (1 / 5) (1 / 100) 15 session0 (lockstep [ [0], [1 / 200], [0] ]) \<noteq> Some (ENDED_SILENCE, s)"
    by (rule conjunct2 [THEN conjunct1])
  show ?thesis using e a b by (intro conjI)
qed


lemma listen_nonempty:
  assumes "speaking_started s \<longrightarrow> chunks s \<noteq> []" and "0 < md"
    and "listen md thr ms s es = Some (e, s')"
  shows "chunks s' \<noteq> []"
  using assms
proof (induction md thr ms s es rule: listen.induct)
  case (1 md thr ms s)
  then show ?case by simp
next
  case (2 md thr ms s f es)
  then show ?case by (simp add: chunks_callback)
next
  case (3 md thr ms s es)
  show ?case
  proof (cases "check md ms s")
    case None
    then show ?thesis using 3 by simp
  next
    case (Some e')
    then have "s' = s" using "3.prems" by simp
    then show ?thesis using Some "3.prems"(1,2) by (auto simp: check_def split: if_splits)
  qed
qed

lemma listen_chunks_from:
  "listen md thr ms s es = Some (e, s') \<Longrightarrow>
   set (chunks s') \<subseteq> set (chunks s) \<union> {f. Frame f \<in> set es}"
proof (induction md thr ms s es rule: listen.induct)
  case (1 md thr ms s)
  then show ?case by simp
next
  case (2 md thr ms s f es)
  then have "set (chunks s') \<subseteq> set (chunks (callback thr f s)) \<union> {g. Frame g \<in> set es}"
    by simp
  then show ?case by (auto simp: chunks_callback)
next
  case (3 md thr ms s es)
  then show ?case by (auto split: option.splits)
qed

text \<open>
  Claim C10, as amended. For \<open>max_duration > 0\<close> and callbacks and polls in any order:
  whenever the loop leaves, at least one block has been appended, so
  \<^verbatim>\<open>np.concatenate\<close> does not raise and the recorder returns a buffer at the sample
  rate 16000; the buffer is not empty when no delivered block is. With one poll after
  every block, a stream that reaches \<^verbatim>\<open>max_duration\<close> makes the recorder return.
\<close>

theorem recorder_returns_nonempty:
  assumes "0 < max_duration"
  shows "(\<forall>e s. listen max_duration silence_threshold max_silent session0 es
                 = Some (e, s) \<longrightarrow> chunks s \<noteq> [])
       \<and> record_until_silence max_duration silence_threshold max_silent es \<noteq> Some (Inl ValueError)
       \<and> (\<forall>r. record_until_silence max_duration silence_threshold max_silent es = Some r \<longrightarrow>
              (\<exists>audio. r = Inr (audio, sample_rate)))
       \<and> ((\<forall>f. Frame f \<in> set es \<longrightarrow> f \<noteq> []) \<longrightarrow>
            (\<forall>audio sr. record_until_silence max_duration silence_threshold max_silent es
                 = Some (Inr (audio, sr)) \<longrightarrow> audio \<noteq> []))
       \<and> (\<forall>fs. es = lockstep fs \<and> fs \<noteq> [] \<and> max_duration \<le> real (length fs) * (1 / 10) \<longrightarrow>
            (\<exists>audio. record_until_silence max_duration silence_threshold max_silent es
                 = Some (Inr (audio, sample_rate))))"
proof -
  have a: "chunks s \<noteq> []"
    if "listen max_duration silence_threshold max_silent session0 es = Some (e, s)"
    for e s
    using _ assms that by (rule listen_nonempty) (simp add: session0_def)
  have b: "\<exists>audio. r = Inr (audio, sample_rate)"
    if "record_until_silence max_duration silence_threshold max_silent es = Some r" for r
    using that a
    by (auto simp: record_until_silence_def np_concatenate_def split: option.splits if_splits)
  have c: "record_until_silence max_duration silence_threshold max_silent es \<noteq> Some (Inl ValueError)"
    using b by fastforce
  have d: "audio \<noteq> []"
    if ne: "\<forall>f. Frame f \<in> set es \<longrightarrow> f \<noteq> []"
      and r: "record_until_silence max_duration silence_threshold max_silent es = Some (Inr (audio, sr))"
    for audio sr
  proof -
    from r obtain e s where
      l: "listen max_duration silence_threshold max_silent session0 es = Some (e, s)"
      and au: "audio = concat (chunks s)"
      by (auto simp: record_until_silence_def np_concatenate_def split: option.splits if_splits)
    have "chunks s \<noteq> []" using a l by blast
    then obtain f where f: "f \<in> set (chunks s)" by (cases "chunks s") auto
    have "set (chunks s) \<subseteq> set (chunks session0) \<union> {f. Frame f \<in> set es}"
      using l by (rule listen_chunks_from)
    then have "f \<noteq> []" using f ne by (auto simp: session0_def)
    then show ?thesis using f au by auto
  qed
  have t: "\<exists>audio. record_until_silence max_duration silence_threshold max_silent es
                 = Some (Inr (audio, sample_rate))"
    if "es = lockstep fs \<and> fs \<noteq> [] \<and> max_duration \<le> real (length fs) * (1 / 10)" for fs
  proof -
    have "listen max_duration silence_threshold max_silent session0
            (lockstep fs) \<noteq> None"
      using that by (intro listen_reaches_ceiling) (simp_all add: session0_def)
    then have "record_until_silence max_duration silence_threshold max_silent es \<noteq> None"
      using that by (auto simp: record_until_silence_def split: option.splits)
    then obtain r where
      "record_until_silence max_duration silence_threshold max_silent es = Some r"
      by blast
    then show ?thesis using b by blast
  qed
  show ?thesis using a b c d t by blast
qed

text \<open>
  One loud and one silent block with \<open>max_silent = 1\<close>: the recorder returns
  the two samples.
\<close>

theorem recorder_returns_nonempty_witness:
  "record_until_silence 30 (1 / 100) 1 (lockstep [ [1 / 2], [0] ])
     = Some (Inr ([1 / 2, 0], 16000))
   \<and> record_until_silence 30 (1 / 100) 1 (lockstep [ [1 / 2], [0] ]) \<noteq> Some (Inl ValueError)"
proof -
  have h: "0 < (30 :: real)" by simp
  note u = recorder_returns_nonempty [OF h, of "1 / 100" 1 "lockstep [ [1 / 2], [0] ]"]
  have e: "record_until_silence 30 (1 / 100) 1 (lockstep [ [1 / 2], [0] ])
     = Some (Inr ([1 / 2, 0], 16000))"
    by (simp add: record_until_silence_def  lockstep_def callback_def
                  level_def exceeds_def check_def session0_def np_concatenate_def sample_rate_def)
  from u have b: "record_until_silence 30 (1 / 100) 1 (lockstep [ [1 / 2], [0] ]) \<noteq> Some (Inl ValueError)"
    by (rule conjunct2 [THEN conjunct1])
  show ?thesis using e b by (intro conjI)
qed

text \<open>
  Claim C10 as stated fails for \<open>max_duration = 0\<close>: the \<^verbatim>\<open>max_duration\<close> test holds
  with no block recorded, the loop leaves at a poll that comes before the first
  callback, and \<^verbatim>\<open>np.concatenate([])\<close> raises \<^verbatim>\<open>ValueError\<close>.
\<close>

theorem recorder_empty_counterexample:
  "check 0 15 session0 = Some ENDED_MAXDURATION
   \<and> chunks session0 = []
   \<and> record_until_silence 0 (1 / 100) 15 [Poll] = Some (Inl ValueError)"
  by (simp add: record_until_silence_def np_concatenate_def check_def session0_def)

section \<open>Properties of the transcriber and of the worker\<close>


subsection \<open>Normalisation\<close>

lemma fold_max_Max: "fold max xs (x :: real) = Max (set (x # xs))"
  by (rule Max.set_eq_fold [symmetric])

lemma np_max_zero_all_zero:
  assumes "np_max (map abs audio_data) = Inr 0"
  shows "audio_data \<noteq> [] \<and> (\<forall>x \<in> set audio_data. x = 0)"
proof (cases audio_data)
  case Nil
  then show ?thesis using assms by simp
next
  case (Cons y ys)
  then have "np_max (map abs audio_data) = Inr (Max (set (map abs audio_data)))"
    by (simp add: Max.set_eq_fold [symmetric] del: set_simps)
  then have m: "Max (set (map abs audio_data)) = 0"
    using assms by simp
  have "x = 0" if "x \<in> set audio_data" for x
  proof -
    have "\<bar>x\<bar> \<in> set (map abs audio_data)" using that by simp
    then have "\<bar>x\<bar> \<le> Max (set (map abs audio_data))" by (intro Max_ge) simp_all
    then show ?thesis using m by simp
  qed
  then show ?thesis using Cons by simp
qed

lemma np_int16_zero: "np_int16 0 = 0"
  by (simp add: np_int16_def py_int_def)

text \<open>
  Claim C4. A buffer whose largest absolute sample is 0 takes the branch without
  division and goes on to the quantisation as it came, every sample 0 (and is written as
  zeros); and for every buffer, when the division does take place the divisor is
  positive, so nothing is ever divided by zero.
\<close>

theorem silence_not_divided:
  assumes "np_max (map abs audio_data) = Inr 0"
  shows "peak_normalize audio_data = Inr (Skipped, audio_data)
       \<and> (\<forall>x \<in> set audio_data. x = 0)
       \<and> quantize audio_data = replicate (length audio_data) 0
       \<and> (\<forall>b c m. peak_normalize b = Inr (Divided m, c) \<longrightarrow> 0 < m)"
proof -
  have z: "\<forall>x \<in> set audio_data. x = 0" using np_max_zero_all_zero [OF assms] by simp
  have n: "peak_normalize audio_data = Inr (Skipped, audio_data)"
    using assms by (simp add: peak_normalize_def)
  have q: "quantize audio_data = replicate (length audio_data) 0"
    using z by (auto simp: quantize_def np_int16_zero map_replicate_const [symmetric]
                     intro!: map_cong)
  have d: "0 < m" if "peak_normalize b = Inr (Divided m, c)" for b c m
    using that by (auto simp: peak_normalize_def split: sum.splits if_splits)
  show ?thesis using z n q d by blast
qed

text \<open>
  Three samples of digital silence.
\<close>

theorem silence_not_divided_witness:
  "peak_normalize [0, 0, 0] = Inr (Skipped, [0, 0, 0])
       \<and> quantize [0, 0, 0] = replicate (length [0, 0, 0 :: real]) 0"
proof -
  have h: "np_max (map abs [0, 0, 0]) = Inr 0" by simp
  note u = silence_not_divided [OF h]
  from u have a: "peak_normalize [0, 0, 0] = Inr (Skipped, [0, 0, 0])"
    by (rule conjunct1)
  from u have b: "quantize [0, 0, 0] = replicate (length [0, 0, 0 :: real]) 0"
    by (rule conjunct2 [THEN conjunct2, THEN conjunct1])
  show ?thesis using a b by (intro conjI)
qed

text \<open>
  Claim C5. A buffer whose largest absolute sample is 1 is divided by 1: the
  normalisation step returns the samples it was given.
\<close>

theorem unit_peak_unchanged:
  assumes "np_max (map abs audio_data) = Inr 1"
  shows "peak_normalize audio_data = Inr (Divided 1, audio_data)"
  using assms by (simp add: peak_normalize_def)

text \<open>
  A buffer with peak 1, reached by a negative sample.
\<close>

theorem unit_peak_unchanged_witness:
  "peak_normalize [1 / 2, - 1, 1 / 4] = Inr (Divided 1, [1 / 2, - 1, 1 / 4])"
proof -
  have h: "np_max (map abs [1 / 2, - 1, 1 / 4]) = Inr 1" by simp
  show ?thesis by (rule unit_peak_unchanged [OF h])
qed

subsection \<open>Temporary files\<close>

lemma fold_max_ge: "x \<in> set xs \<Longrightarrow> x \<le> fold max xs (a :: nat)"
proof -
  assume "x \<in> set xs"
  then have "x \<le> Max (set (a # xs))" by (intro Max_ge) simp_all
  then show ?thesis by (simp only: Max.set_eq_fold)
qed

lemma fresh_unused: "(fresh fs, c) \<notin> set fs"
proof
  assume "(fresh fs, c) \<in> set fs"
  then have "fresh fs \<in> set (map fst fs)" by force
  then have "fresh fs \<le> fold max (map fst fs) 0" by (rule fold_max_ge)
  then show False by (simp add: fresh_def)
qed

lemma filter_fresh: "filter (\<lambda>(q, d). q \<noteq> fresh fs) fs = fs"
  using fresh_unused [of fs] by (auto simp: filter_id_conv)

lemma get_model_files:
  "get_model en (w\<lparr>files := f\<rparr>) = (fst (get_model en w), (snd (get_model en w))\<lparr>files := f\<rparr>)"
  by (simp add: get_model_def Let_def split: option.splits)

lemma files_get_model: "files (snd (get_model en w)) = files w"
  by (simp add: get_model_def Let_def split: option.splits)

lemma files_restore:
  "files wg = f \<Longrightarrow> wg\<lparr>files := f\<rparr> = wg"
  "files wg = f \<Longrightarrow> wg\<lparr>effects := e, files := f\<rparr> = wg\<lparr>effects := e\<rparr>"
  by (cases wg; auto)+

lemma transcribe_reached:
  assumes "peak_normalize audio_data = Inr (n, a)"
  shows "transcribe en audio_data sr w =
     (let p = fresh (files w); wav = Wav sr (quantize a); wg = snd (get_model en w)
      in case fst (get_model en w) of
           Inl e \<Rightarrow> (Inl e, wg)
         | Inr m \<Rightarrow>
             (case run_model en m wav of
                Inl e \<Rightarrow> Inl e
              | Inr segments \<Rightarrow> Inr (strip (join '' '' segments)),
              wg\<lparr>effects := effects wg @ [ModelInvoked m p]\<rparr>))"
proof -
  have f: "files (snd (get_model en w)) = files w" by (rule files_get_model)
  show ?thesis
    using assms
    by (auto simp: transcribe_def Let_def write_file_def unlink_def get_model_files filter_fresh
                   files_restore [OF f]
             split: sum.splits prod.splits)
qed

lemma normalize_nonempty: "audio_data \<noteq> [] \<Longrightarrow> \<exists>n a. peak_normalize audio_data = Inr (n, a)"
  by (cases audio_data) (simp_all add: peak_normalize_def)


lemma transcribe_files:
  assumes "audio_data \<noteq> []"
  shows "files (snd (transcribe en audio_data sr w)) = files w"
proof -
  obtain n a where na: "peak_normalize audio_data = Inr (n, a)"
    using normalize_nonempty [OF assms] by blast
  show ?thesis
    by (simp add: transcribe_reached [OF na] Let_def files_get_model split: sum.splits)
qed

text \<open>
  Claim C8. The \<^verbatim>\<open>try\<close> block is reached by every buffer that is not empty (the
  empty one never gets as far as the model). Whatever happens inside it, the temporary
  file is gone when \<^verbatim>\<open>transcribe\<close> or \<^verbatim>\<open>transcribe_audio\<close> has left, and the
  directory is as it was before the call: on success, when loading the model raises, and
  when the model run raises. In the last two cases the caller receives that very error,
  and in the last the model had been invoked on the temporary file.
\<close>

theorem temp_file_unlinked:
  assumes "audio_data \<noteq> []"
  shows "files (snd (transcribe en audio_data sr w)) = files w
       \<and> \<not> exists_file (snd (transcribe en audio_data sr w)) (fresh (files w))
       \<and> files (snd (transcribe_audio en audio_data sr w)) = files w
       \<and> (\<forall>n a m e. peak_normalize audio_data = Inr (n, a) \<and> fst (get_model en w) = Inr m
              \<and> run_model en m (Wav sr (quantize a)) = Inl e \<longrightarrow>
            fst (transcribe en audio_data sr w) = Inl e
            \<and> fst (transcribe_audio en audio_data sr w) = Inl e
            \<and> ModelInvoked m (fresh (files w)) \<in> set (effects (snd (transcribe en audio_data sr w))))
       \<and> (\<forall>e. fst (get_model en w) = Inl e \<longrightarrow> fst (transcribe en audio_data sr w) = Inl e)"
proof -
  have f: "files (snd (transcribe en audio_data sr w)) = files w"
    using assms by (rule transcribe_files)
  have "fresh (files w) \<notin> set (map fst (files w))"
    using fresh_unused [of "files w"] by auto
  then have g: "\<not> exists_file (snd (transcribe en audio_data sr w)) (fresh (files w))"
    by (simp add: exists_file_def f)
  have ta: "transcribe_audio en audio_data sr w = transcribe en audio_data sr w"
    using assms by (simp add: transcribe_audio_def)
  obtain n a where na: "peak_normalize audio_data = Inr (n, a)"
    using normalize_nonempty [OF assms] by blast
  have p: "fst (transcribe en audio_data sr w) = Inl e
            \<and> ModelInvoked m (fresh (files w)) \<in> set (effects (snd (transcribe en audio_data sr w)))"
    if "peak_normalize audio_data = Inr (n', a')" "fst (get_model en w) = Inr m"
       "run_model en m (Wav sr (quantize a')) = Inl e" for n' a' m e
    using that by (simp add: transcribe_reached [OF that(1)] Let_def)
  have l: "fst (transcribe en audio_data sr w) = Inl e" if "fst (get_model en w) = Inl e" for e
    using that by (simp add: transcribe_reached [OF na] Let_def)
  show ?thesis using f g ta p l by simp
qed

text \<open>
  A model that raises on every run: the caller receives \<open>ModelError\<close>, the model was
  built and invoked once, and no file is left.
\<close>

theorem temp_file_unlinked_witness:
  "transcribe failing_model [1 / 4, 1 / 2] 16000 world0 =
     (Inl ModelError,
      \<lparr>model = Some 0, constructions = 1, models_dir = True, files = [],
       effects = [ModelInvoked 0 (fresh [])]\<rparr>)
   \<and> files (snd (transcribe failing_model [1 / 4, 1 / 2] 16000 world0)) = files world0
   \<and> \<not> exists_file (snd (transcribe failing_model [1 / 4, 1 / 2] 16000 world0)) (fresh (files world0))"
proof -
  have h: "[1 / 4, 1 / 2 :: real] \<noteq> []" by simp
  have n: "peak_normalize [1 / 4, 1 / 2] = Inr (Divided (1 / 2), [1 / 2, 1])"
    by (simp add: peak_normalize_def)
  have g: "get_model failing_model world0 =
        (Inr 0, \<lparr>model = Some 0, constructions = 1, models_dir = True, files = [], effects = []\<rparr>)"
    by (simp add: get_model_def failing_model_def world0_def)
  have r: "run_model failing_model 0 (Wav 16000 (quantize [1 / 2, 1])) = Inl ModelError"
    by (simp add: failing_model_def)
  have t: "transcribe failing_model [1 / 4, 1 / 2] 16000 world0 =
     (Inl ModelError,
      \<lparr>model = Some 0, constructions = 1, models_dir = True, files = [],
       effects = [ModelInvoked 0 (fresh [])]\<rparr>)"
    by (simp add: transcribe_reached [OF n] g r Let_def) (simp add: world0_def)
  note u = temp_file_unlinked [OF h, of failing_model 16000 world0]
  from u have a: "files (snd (transcribe failing_model [1 / 4, 1 / 2] 16000 world0)) = files world0"
    by (rule conjunct1)
  from u have b: "\<not> exists_file (snd (transcribe failing_model [1 / 4, 1 / 2] 16000 world0))
                      (fresh (files world0))"
    by (rule conjunct2 [THEN conjunct1])
  show ?thesis using t a b by (intro conjI)
qed

subsection \<open>The empty buffer\<close>

text \<open>
  Claim C3, evaluated on the empty buffer. \<^verbatim>\<open>transcribe_audio\<close> of
  \<^verbatim>\<open>speech_app.py\<close> returns the empty string and touches nothing. \<^verbatim>\<open>transcribe\<close>
  of \<^verbatim>\<open>index.py\<close> has no such guard: \<^verbatim>\<open>np.max\<close> raises \<^verbatim>\<open>ValueError\<close> before
  \<^verbatim>\<open>try\<close>, so the caller receives the error instead of the empty string and the
  temporary file created just before stays behind; the model is neither built nor
  invoked.
\<close>

theorem transcribe_empty_buffer:
  "transcribe en [] sr w = (Inl ValueError, write_file (fresh (files w)) Empty w)
   \<and> exists_file (snd (transcribe en [] sr w)) (fresh (files w))
   \<and> effects (snd (transcribe en [] sr w)) = effects w
   \<and> constructions (snd (transcribe en [] sr w)) = constructions w
   \<and> transcribe_audio en [] sr w = (Inr '''', w)"
  by (simp add: transcribe_def transcribe_audio_def peak_normalize_def write_file_def exists_file_def
                Let_def)

subsection \<open>The minimum-duration floor\<close>

text \<open>
  Every application object has a hotkey in its configuration.
\<close>

lemma app_init_has_hotkey:
  "app_init cfg = Inr a \<Longrightarrow> \<exists>h. map_of (config a) ''hotkey'' = Some h"
  by (auto simp: app_init_def split: option.splits)

text \<open>
  Claim C6. For an application object (its configuration has the key \<^verbatim>\<open>hotkey\<close>) and
  a buffer of fewer than \<open>0.3 * 16000\<close> samples, \<^verbatim>\<open>_process_audio\<close> returns without
  an error, with the world as it was (no model built or invoked, no temporary file, no
  clipboard, no notification) and with the indicator reset: the microphone icon and the
  ready line naming the hotkey.
\<close>

theorem short_audio_discarded:
  assumes "map_of (config a) ''hotkey'' = Some h"
    and "real (length audio_data) < real sample_rate * (3 / 10)"
  shows "process_audio en a audio_data w = (None, a\<lparr>title := Mic, status := Ready h\<rparr>, w)"
  using assms by (simp add: process_audio_def set_ready_def)

text \<open>
  4799 samples, one short of 300 ms, while the indicator shows the hourglass.
\<close>

theorem short_audio_discarded_witness:
  "process_audio failing_model
     \<lparr>title = Hourglass, status = Transcribing, config = [(''hotkey'', ''ctrl'')],
      is_recording = False, audio_chunks = []\<rparr>
     (replicate 4799 (1 / 2)) world0 =
   (None,
    \<lparr>title = Mic, status = Ready ''ctrl'', config = [(''hotkey'', ''ctrl'')],
      is_recording = False, audio_chunks = []\<rparr>,
    world0)"
proof -
  have h1: "map_of (config \<lparr>title = Hourglass, status = Transcribing, config = [(''hotkey'', ''ctrl'')],
      is_recording = False, audio_chunks = []\<rparr>) ''hotkey'' = Some ''ctrl''" by simp
  have h2: "real (length (replicate 4799 (1 / 2 :: real))) < real sample_rate * (3 / 10)"
    by (simp add: sample_rate_def)
  show ?thesis
    using short_audio_discarded [OF h1 h2, of failing_model world0] by simp
qed

section \<open>Properties of the configuration\<close>

text \<open>
  Claim C9. Given a JSON library that reads back what it wrote for the objects
  \<^verbatim>\<open>{"hotkey": v}\<close> with \<open>v\<close> one of the ten recognised hotkeys: saving such a
  configuration and loading it gives the same configuration, whatever the file held
  before; and loading when there is no file gives the hotkey \<^verbatim>\<open>ctrl\<close>.
\<close>

theorem config_round_trip:
  assumes "\<forall>v \<in> set keys. json_load (json_dump [(''hotkey'', v)]) = Inr [(''hotkey'', v)]"
  shows "(\<forall>v \<in> set keys. \<forall>file.
            load_config json_load (save_config json_dump [(''hotkey'', v)] file)
              = Inr [(''hotkey'', v)])
       \<and> load_config json_load None = Inr [(''hotkey'', ''ctrl'')]"
  using assms by (simp add: load_config_def save_config_def DEFAULT_HOTKEY_def)

lemma json_codec_keys:
  "\<forall>v \<in> set keys. json_loads (json_dumps [(''hotkey'', v)]) = Inr [(''hotkey'', v)]"
  by (simp add: keys_def json_loads_def json_dumps_def json_quote_def json_ws_def read_quoted_def
                dquote_def backslash_def)

text \<open>
  The codec defined above reads back what it writes for the ten hotkeys, so the round
  trip holds with it: for \<^verbatim>\<open>alt\<close> written where no file was, and for \<^verbatim>\<open>f6\<close>
  written over an older file.
\<close>

theorem config_round_trip_witness:
  "load_config json_loads (save_config json_dumps [(''hotkey'', ''alt'')] None)
     = Inr [(''hotkey'', ''alt'')]
   \<and> load_config json_loads (save_config json_dumps [(''hotkey'', ''f6'')] (Some ''{}''))
     = Inr [(''hotkey'', ''f6'')]
   \<and> load_config json_loads None = Inr [(''hotkey'', ''ctrl'')]"
proof -
  note u = config_round_trip [OF json_codec_keys]
  have k: "''alt'' \<in> set keys" "''f6'' \<in> set keys" by (simp_all add: keys_def)
  from u k(1) have a: "load_config json_loads (save_config json_dumps [(''hotkey'', ''alt'')] None)
     = Inr [(''hotkey'', ''alt'')]"
    by blast
  from u k(2) have b: "load_config json_loads (save_config json_dumps [(''hotkey'', ''f6'')] (Some ''{}''))
     = Inr [(''hotkey'', ''f6'')]"
    by blast
  from u have c: "load_config json_loads None = Inr [(''hotkey'', ''ctrl'')]"
    by (rule conjunct2)
  show ?thesis using a b c by (intro conjI)
qed

section \<open>Properties of the ModelProvider with several callers\<close>


text \<open>
  A single caller takes seven steps, and ends with what \<^verbatim>\<open>get_model\<close> returns when
  called alone.
\<close>

lemma solo_caller:
  assumes "load_model en 0 = None"
  shows "pcs (run en [t, t, t, t, t, t, t] shared0) t = Done (Some 0)
       \<and> g_model (run en [t, t, t, t, t, t, t] shared0) = Some 0
       \<and> fst (get_model en world0) = Inr 0
       \<and> model (snd (get_model en world0)) = Some 0"
  using assms by (simp add: step_def shared0_def get_model_def world0_def)

lemma once_shared0: "once shared0"
  by (simp add: once_def shared0_def)

lemma step_globals:
  assumes "at_pc s t (pcs s t)" and "built s \<le> 1" and "g_model s \<noteq> None \<longrightarrow> built s = 1"
    and "lock s = None \<and> g_model s = None \<longrightarrow> built s = 0"
  shows "built (step en t s) \<le> 1
       \<and> (g_model (step en t s) \<noteq> None \<longrightarrow> built (step en t s) = 1)
       \<and> (lock (step en t s) = None \<and> g_model (step en t s) = None \<longrightarrow> built (step en t s) = 0)"
  using assms by (cases "pcs s t") (auto simp: step_def split: option.splits)

lemma step_self:
  assumes "at_pc s t (pcs s t)" 
    and "lock s = None \<and> g_model s = None \<longrightarrow> built s = 0"
  shows "at_pc (step en t s) t (pcs (step en t s) t)"
  using assms by (cases "pcs s t") (auto simp: step_def split: option.splits)

lemma step_other:
  assumes "at_pc s t (pcs s t)" and "at_pc s u (pcs s u)" and "u \<noteq> t"
  shows "at_pc (step en t s) u (pcs (step en t s) u)"
  using assms
  by (cases "pcs s t"; cases "pcs s u") (auto simp: step_def split: option.splits)

lemma once_step:
  assumes "once s"
  shows "once (step en t s)"
proof -
  have a: "at_pc s u (pcs s u)" for u using assms by (simp add: once_def)
  have g: "built s \<le> 1" "g_model s \<noteq> None \<longrightarrow> built s = 1"
    "lock s = None \<and> g_model s = None \<longrightarrow> built s = 0"
    using assms by (simp_all add: once_def)
  have "at_pc (step en t s) u (pcs (step en t s) u)" for u
  proof (cases "u = t")
    case True
    then show ?thesis using step_self [OF a g(3)] by simp
  next
    case False
    then show ?thesis using step_other [OF a a] by simp
  qed
  then show ?thesis using step_globals [OF a g] by (simp add: once_def)
qed

lemma once_run: "once s \<Longrightarrow> once (run en sched s)"
  by (induction sched arbitrary: s) (simp_all add: once_step)

lemma attempts_step:
  assumes "\<forall>n. load_model en n = None" and "attempts s = built s"
  shows "attempts (step en t s) = built (step en t s)"
  using assms by (cases "pcs s t") (auto simp: step_def)

lemma attempts_run:
  "\<forall>n. load_model en n = None \<Longrightarrow> attempts s = built s \<Longrightarrow>
   attempts (run en sched s) = built (run en sched s)"
  by (induction sched arbitrary: s) (simp_all add: attempts_step)

text \<open>
  Completion. A thread that runs while the lock is free or its own has one statement
  less to go after every step, so seven steps finish it; the holder of the lock is at
  most five statements from the end.
\<close>

lemma run_append: "run en (a @ b) s = run en b (run en a s)"
  by (induction a arbitrary: s) simp_all

lemma step_other_pc: "u \<noteq> t \<Longrightarrow> pcs (step en t s) u = pcs s u"
  by (cases "pcs s t") (simp_all add: step_def split: option.splits)

lemma step_finished: "finished (pcs s u) \<Longrightarrow> finished (pcs (step en t s) u)"
proof (cases "u = t")
  case True
  assume "finished (pcs s u)"
  then have "step en t s = s" using True by (cases "pcs s t") (simp_all add: step_def)
  then show ?thesis using \<open>finished (pcs s u)\<close> by simp
next
  case False
  assume "finished (pcs s u)"
  then show ?thesis using False by (simp add: step_other_pc)
qed

lemma run_finished: "finished (pcs s u) \<Longrightarrow> finished (pcs (run en sched s) u)"
  by (induction sched arbitrary: s) (simp_all add: step_finished)

lemma remaining_0: "remaining p = 0 \<longleftrightarrow> finished p"
  by (cases p) simp_all

lemma remaining_le: "remaining p \<le> 7"
  by (cases p) simp_all

lemma solo_step:
  assumes "once s" and "lock s = None \<or> lock s = Some t"
  shows "(lock (step en t s) = None \<or> lock (step en t s) = Some t)
       \<and> remaining (pcs (step en t s) t) \<le> remaining (pcs s t) - 1"
proof -
  have "at_pc s t (pcs s t)" using assms(1) by (simp add: once_def)
  then show ?thesis using assms(2)
    by (cases "pcs s t") (auto simp: step_def split: option.splits)
qed

lemma solo_run:
  assumes "once s" and "lock s = None \<or> lock s = Some t"
  shows "once (run en (replicate n t) s)
       \<and> (lock (run en (replicate n t) s) = None \<or> lock (run en (replicate n t) s) = Some t)
       \<and> remaining (pcs (run en (replicate n t) s) t) \<le> remaining (pcs s t) - n"
  using assms
proof (induction n arbitrary: s)
  case 0
  then show ?case by simp
next
  case (Suc n)
  have o: "once (step en t s)" using Suc.prems(1) by (rule once_step)
  have l: "lock (step en t s) = None \<or> lock (step en t s) = Some t"
    and r: "remaining (pcs (step en t s) t) \<le> remaining (pcs s t) - 1"
    using solo_step [OF Suc.prems] by simp_all
  have "remaining (pcs (run en (replicate n t) (step en t s)) t)
          \<le> remaining (pcs (step en t s) t) - n"
    using Suc.IH [OF o l] by simp
  then have "remaining (pcs (run en (replicate n t) (step en t s)) t)
          \<le> remaining (pcs s t) - Suc n"
    using r by simp
  then show ?case using Suc.IH [OF o l] by simp
qed

lemma finished_unlocked: "once s \<Longrightarrow> finished (pcs s t) \<Longrightarrow> lock s \<noteq> Some t"
proof -
  assume "once s" "finished (pcs s t)"
  then have "at_pc s t (pcs s t)" "finished (pcs s t)" by (simp_all add: once_def)
  then show ?thesis by (cases "pcs s t") simp_all
qed

lemma solo_finishes:
  assumes "once s" and "lock s = None \<or> lock s = Some t" and "remaining (pcs s t) \<le> n"
  shows "once (run en (replicate n t) s) \<and> lock (run en (replicate n t) s) = None
       \<and> finished (pcs (run en (replicate n t) s) t)"
proof -
  note r = solo_run [OF assms(1,2), of en n]
  have "remaining (pcs (run en (replicate n t) s) t) = 0" using r assms(3) by simp
  then have f: "finished (pcs (run en (replicate n t) s) t)" by (simp add: remaining_0)
  moreover have "lock (run en (replicate n t) s) \<noteq> Some t"
    using r f by (intro finished_unlocked) simp_all
  ultimately show ?thesis using r by blast
qed

lemma holder_remaining: "once s \<Longrightarrow> lock s = Some u \<Longrightarrow> remaining (pcs s u) \<le> 5"
proof -
  assume "once s" "lock s = Some u"
  then have "at_pc s u (pcs s u)" "lock s = Some u" by (simp_all add: once_def)
  then show ?thesis by (cases "pcs s u") simp_all
qed

lemma callers_finish:
  assumes "once s" and "lock s = None"
  shows "once (run en (concat (map (replicate 7) ts)) s)
       \<and> lock (run en (concat (map (replicate 7) ts)) s) = None
       \<and> (\<forall>t \<in> set ts. finished (pcs (run en (concat (map (replicate 7) ts)) s) t))"
  using assms
proof (induction ts arbitrary: s)
  case Nil
  then show ?case by simp
next
  case (Cons t ts)
  let ?s1 = "run en (replicate 7 t) s"
  have s1: "once ?s1 \<and> lock ?s1 = None \<and> finished (pcs ?s1 t)"
    using Cons.prems remaining_le by (intro solo_finishes) simp_all
  then have ih: "once (run en (concat (map (replicate 7) ts)) ?s1)
       \<and> lock (run en (concat (map (replicate 7) ts)) ?s1) = None
       \<and> (\<forall>t \<in> set ts. finished (pcs (run en (concat (map (replicate 7) ts)) ?s1) t))"
    by (intro Cons.IH) simp_all
  have "finished (pcs ?s1 t)" using s1 by simp
  then have "finished (pcs (run en (concat (map (replicate 7) ts)) ?s1) t)"
    by (rule run_finished)
  then show ?case using ih by (simp add: run_append)
qed

lemma drain_finishes:
  assumes "once s"
  shows "once (run en (drain s ts) s)
       \<and> (\<forall>t \<in> set ts. finished (pcs (run en (drain s ts) s) t))"
proof (cases "lock s")
  case None
  then show ?thesis using callers_finish [OF assms None, of en ts] by (simp add: drain_def)
next
  case (Some u)
  let ?s1 = "run en (replicate 5 u) s"
  have "once ?s1 \<and> lock ?s1 = None \<and> finished (pcs ?s1 u)"
    using assms Some holder_remaining [OF assms Some] by (intro solo_finishes) simp_all
  then have "once ?s1" "lock ?s1 = None" by simp_all
  then show ?thesis using callers_finish [of ?s1 en ts] Some by (simp add: drain_def run_append)
qed

lemma never_raises_step:
  assumes "\<forall>n. load_model en n = None"
    and "\<forall>u. pcs s u \<noteq> Raised \<and> pcs s u \<noteq> ReleaseRaise"
  shows "\<forall>u. pcs (step en t s) u \<noteq> Raised \<and> pcs (step en t s) u \<noteq> ReleaseRaise"
proof
  fix u
  show "pcs (step en t s) u \<noteq> Raised \<and> pcs (step en t s) u \<noteq> ReleaseRaise"
  proof (cases "u = t")
    case True
    have "pcs s t \<noteq> Raised \<and> pcs s t \<noteq> ReleaseRaise" using assms(2) by blast
    then show ?thesis using True assms(1) by (cases "pcs s t") (auto simp: step_def)
  next
    case False
    then show ?thesis using assms(2) by (simp add: step_other_pc)
  qed
qed

lemma never_raises_run:
  assumes "\<forall>n. load_model en n = None"
    and "\<forall>u. pcs s u \<noteq> Raised \<and> pcs s u \<noteq> ReleaseRaise"
  shows "\<forall>u. pcs (run en sched s) u \<noteq> Raised \<and> pcs (run en sched s) u \<noteq> ReleaseRaise"
  using assms(2)
proof (induction sched arbitrary: s)
  case Nil
  then show ?case by simp
next
  case (Cons t sched)
  show ?case using Cons.IH [OF never_raises_step [OF assms(1) Cons.prems] ] by simp
qed


lemma finished_Done: "finished p \<Longrightarrow> p \<noteq> Raised \<Longrightarrow> \<exists>r. p = Done r"
  by (cases p) simp_all


text \<open>
  Claim C7. Any number of threads call \<^verbatim>\<open>get_model()\<close> while no model exists, and
  their steps are interleaved in any order. At every moment at most one model has been
  built; every caller that has returned has received a model, the one stored in
  \<^verbatim>\<open>_model\<close>, and exactly one model has been built by then; any two callers that
  have returned hold the identical handle; and when the constructor does not raise,
  \<^verbatim>\<open>WhisperModel(...)\<close> has been called at most once, so no second construction is
  ever started. The callers do return: from the state reached by any schedule, letting
  the holder of the lock and then each caller of any list \<open>ts\<close> run finishes every one
  of them, and when the constructor does not raise each of them has then received the
  stored model, after exactly one construction.
\<close>

theorem model_built_once:
  "built (run en sched shared0) \<le> 1
   \<and> (\<forall>t r. pcs (run en sched shared0) t = Done r \<longrightarrow>
         r \<noteq> None \<and> r = g_model (run en sched shared0) \<and> built (run en sched shared0) = 1)
   \<and> (\<forall>t u r r'. pcs (run en sched shared0) t = Done r \<and> pcs (run en sched shared0) u = Done r'
         \<longrightarrow> r = r')
   \<and> ((\<forall>n. load_model en n = None) \<longrightarrow> attempts (run en sched shared0) \<le> 1)
   \<and> (\<forall>ts. \<forall>t \<in> set ts.
         finished (pcs (run en (sched @ drain (run en sched shared0) ts) shared0) t))
   \<and> ((\<forall>n. load_model en n = None) \<longrightarrow>
        (\<forall>ts. \<forall>t \<in> set ts.
           pcs (run en (sched @ drain (run en sched shared0) ts) shared0) t
             = Done (g_model (run en (sched @ drain (run en sched shared0) ts) shared0))
           \<and> g_model (run en (sched @ drain (run en sched shared0) ts) shared0) \<noteq> None
           \<and> built (run en (sched @ drain (run en sched shared0) ts) shared0) = 1
           \<and> attempts (run en (sched @ drain (run en sched shared0) ts) shared0) = 1))"
proof -
  define s where "s = run en sched shared0"
  have o: "once s" unfolding s_def using once_shared0 by (rule once_run)
  have b: "built s \<le> 1" using o by (simp add: once_def)
  have d: "r \<noteq> None \<and> r = g_model s \<and> built s = 1" if "pcs s t = Done r" for t r
  proof -
    have "at_pc s t (Done r)" using o that by (metis once_def)
    then show ?thesis using o by (auto simp: once_def)
  qed
  have e: "r = r'" if "pcs s t = Done r \<and> pcs s u = Done r'" for t u r r'
    using that d by metis
  have a: "attempts s \<le> 1" if "\<forall>n. load_model en n = None"
  proof -
    have "attempts s = built s"
      unfolding s_def using that by (rule attempts_run) (simp add: shared0_def)
    then show ?thesis using b by simp
  qed
  have ext: "run en (sched @ drain s ts) shared0 = run en (drain s ts) s" for ts
    by (simp add: run_append s_def)
  have f: "finished (pcs (run en (sched @ drain s ts) shared0) t)" if "t \<in> set ts" for ts t
    using drain_finishes [OF o, of en ts] that by (simp add: ext)
  have g: "pcs (run en (sched @ drain s ts) shared0) t
             = Done (g_model (run en (sched @ drain s ts) shared0))
           \<and> g_model (run en (sched @ drain s ts) shared0) \<noteq> None
           \<and> built (run en (sched @ drain s ts) shared0) = 1
           \<and> attempts (run en (sched @ drain s ts) shared0) = 1"
    if ok: "\<forall>n. load_model en n = None" and t: "t \<in> set ts" for ts t
  proof -
    define s' where "s' = run en (sched @ drain s ts) shared0"
    have o': "once s'" unfolding s'_def using once_shared0 by (rule once_run)
    have "\<forall>u. pcs s' u \<noteq> Raised \<and> pcs s' u \<noteq> ReleaseRaise"
      unfolding s'_def using ok by (rule never_raises_run) (simp add: shared0_def)
    moreover have "finished (pcs s' t)" unfolding s'_def using t by (rule f)
    ultimately obtain r where r: "pcs s' t = Done r" using finished_Done by blast
    have "at_pc s' t (Done r)" using o' r by (metis once_def)
    then have m: "r = g_model s'" "g_model s' \<noteq> None" by auto
    then have b': "built s' = 1" using o' by (simp add: once_def)
    have "attempts s' = built s'"
      unfolding s'_def using ok by (rule attempts_run) (simp add: shared0_def)
    then show ?thesis using r m b' unfolding s'_def by simp
  qed
  show ?thesis using b d e a f g unfolding s_def by (intro conjI allI impI ballI) blast+
qed

text \<open>
  No caller is stuck: a thread that has not finished can take a step, or waits for the
  lock while its holder can take one.
\<close>

lemma no_deadlock:
  assumes "once s" and "pcs s t \<noteq> Raised" and "\<forall>r. pcs s t \<noteq> Done r"
  shows "step en t s \<noteq> s \<or> (\<exists>u. lock s = Some u \<and> u \<noteq> t \<and> step en u s \<noteq> s)"
proof (cases "pcs s t = Acquire \<and> lock s \<noteq> None")
  case False
  have "pcs (step en t s) t \<noteq> pcs s t"
    using False assms(2,3) by (cases "pcs s t") (auto simp: step_def split: option.splits)
  then show ?thesis by metis
next
  case True
  then obtain u where u: "lock s = Some u" by auto
  have au: "at_pc s u (pcs s u)" and at: "at_pc s t (pcs s t)" using assms(1) by (simp_all add: once_def)
  have "u \<noteq> t" using at True u by auto
  moreover have "pcs (step en u s) u \<noteq> pcs s u"
    using au u by (cases "pcs s u") (auto simp: step_def split: option.splits)
  ultimately show ?thesis using u by metis
qed


lemma race_run:
  "run always_loads [0, 1, 2, 0, 1, 0, 0, 2, 0, 0, 1, 0, 1, 1, 2, 2, 2, 1, 2] shared0 =
     \<lparr>g_model = Some 0, lock = None, attempts = 1, built = 1,
      pcs = (\<lambda>t. Outer)(0 := Done (Some 0), 1 := Done (Some 0), 2 := Done (Some 0))\<rparr>"
  by (simp add: step_def shared0_def always_loads_def fun_upd_twist)

text \<open>
  Three threads pass the first test before any of them takes the lock; the first builds
  the model, the two others find it inside the lock; all three return handle 0 after one
  construction. And from the state where the first holds the lock and the two others
  wait for it, the completing schedule lets the third return the stored model, after one
  construction.
\<close>

theorem model_built_once_witness:
  "pcs (run always_loads [0, 1, 2, 0, 1, 0, 0, 2, 0, 0, 1, 0, 1, 1, 2, 2, 2, 1, 2] shared0) 0
     = Done (Some 0)
   \<and> pcs (run always_loads [0, 1, 2, 0, 1, 0, 0, 2, 0, 0, 1, 0, 1, 1, 2, 2, 2, 1, 2] shared0) 1
     = Done (Some 0)
   \<and> pcs (run always_loads [0, 1, 2, 0, 1, 0, 0, 2, 0, 0, 1, 0, 1, 1, 2, 2, 2, 1, 2] shared0) 2
     = Done (Some 0)
   \<and> built (run always_loads [0, 1, 2, 0, 1, 0, 0, 2, 0, 0, 1, 0, 1, 1, 2, 2, 2, 1, 2] shared0) = 1
   \<and> attempts (run always_loads [0, 1, 2, 0, 1, 0, 0, 2, 0, 0, 1, 0, 1, 1, 2, 2, 2, 1, 2] shared0) \<le> 1
   \<and> pcs (run always_loads ([0, 1, 2, 0] @ drain (run always_loads [0, 1, 2, 0] shared0) [0, 1, 2])
            shared0) 2
     = Done (g_model
         (run always_loads ([0, 1, 2, 0] @ drain (run always_loads [0, 1, 2, 0] shared0) [0, 1, 2])
            shared0))
   \<and> attempts
        (run always_loads ([0, 1, 2, 0] @ drain (run always_loads [0, 1, 2, 0] shared0) [0, 1, 2])
           shared0) = 1"
proof -
  let ?s = "run always_loads [0, 1, 2, 0, 1, 0, 0, 2, 0, 0, 1, 0, 1, 1, 2, 2, 2, 1, 2] shared0"
  let ?d = "run always_loads ([0, 1, 2, 0] @ drain (run always_loads [0, 1, 2, 0] shared0) [0, 1, 2])
              shared0"
  note u = model_built_once [of always_loads "[0, 1, 2, 0, 1, 0, 0, 2, 0, 0, 1, 0, 1, 1, 2, 2, 2, 1, 2]"]
  note v = model_built_once [of always_loads "[0, 1, 2, 0]"]
  have p: "pcs ?s 0 = Done (Some 0)" "pcs ?s 1 = Done (Some 0)" "pcs ?s 2 = Done (Some 0)"
    unfolding race_run by simp_all
  have l: "\<forall>n. load_model always_loads n = None" by (simp add: always_loads_def)
  have m: "(2 :: nat) \<in> set [0, 1, 2]" by simp
  from u p(1) have b: "built ?s = 1" by blast
  from u l have a: "attempts ?s \<le> 1" by blast
  from v l m have c: "pcs ?d 2 = Done (g_model ?d)" by blast
  from v l m have d: "attempts ?d = 1" by blast
  show ?thesis using p b a c d by (intro conjI)
qed

end
